theory Spec2Isabelle
  imports Complex_Main
begin

section \<open>TimeTableLib: data model\<close>

text \<open>
  The file \<^verbatim>\<open>src/timetable.js\<close> holds two versions of the class \<^verbatim>\<open>Timetable\<close>, one
  after the other: the first (lines 1-631) has a fixed 08:00-18:00 grid, a
  \<^verbatim>\<open>getTimeSlotIndex\<close> method and a row span without minimum; the second (lines 633-1036)
  derives the grid from the events and enforces \<^verbatim>\<open>minRowSpan\<close>. Every operation below takes the
  version as a parameter and follows the text of that version.

  Numbers are minute counts and are modelled as \<open>int\<close>; the floating-point division followed by
  \<^verbatim>\<open>Math.floor\<close> or \<^verbatim>\<open>Math.ceil\<close> is the floor or ceiling of the exact quotient. A field of a raw
  record is a string or absent (\<^verbatim>\<open>undefined\<close>, \<^verbatim>\<open>null\<close>): \<open>string option\<close>.
\<close>

datatype version = V1 | V2

record options =
  weekdays :: "string list"
  timeInterval :: int
  minRowSpan :: int
  showIcons :: bool
  modalEnabled :: bool

text \<open>The defaults of \<^verbatim>\<open>_mergeDefaultOptions\<close>.\<close>

definition defaults :: options where
  "defaults = \<lparr> weekdays = [''Monday'', ''Tuesday'', ''Wednesday'', ''Thursday'', ''Friday''],
      timeInterval = 15, minRowSpan = 2, showIcons = True, modalEnabled = True \<rparr>"

text \<open>
  A raw record. The category is read under the key written with a typographic apostrophe by
  version 1 and under the key written with an ASCII apostrophe by version 2: two properties.
\<close>

record raw_event =
  Date :: "string option"
  Heure :: "string option"
  Matiere :: "string option"
  Salle :: "string option"
  Personnel :: "string option"
  Groupe :: "string option"
  Categorie_typographic :: "string option"
  Categorie_ascii :: "string option"
  Remarques :: "string option"

record event =
  startTime :: string
  endTime :: string
  startMinutes :: int
  endMinutes :: int
  duration :: int
  name :: string
  location :: string
  staff :: string
  group :: string
  category :: string
  remarks :: string
  slotIndex :: "int option"

record time_info =
  ti_startTime :: string
  ti_endTime :: string
  ti_startMinutes :: int
  ti_endMinutes :: int
  ti_duration :: int

text \<open>
  The two exceptions of \<^verbatim>\<open>prepareData\<close>; both are a \<^verbatim>\<open>TypeError\<close> in JavaScript.
  \<open>MalformedTimeRange\<close>: \<^verbatim>\<open>timeStr.match(...)\<close> is \<^verbatim>\<open>null\<close> (or \<^verbatim>\<open>Heure\<close> is absent) and
  \<^verbatim>\<open>.slice\<close> is read from it. \<open>MissingDate\<close>: \<^verbatim>\<open>event.Date\<close> is absent and \<^verbatim>\<open>.split\<close> is read
  from it. \<open>NoTimeSlots\<close>: \<^verbatim>\<open>this.timeSlots[0].minutes\<close> on an empty grid.
\<close>

datatype error = MalformedTimeRange | MissingDate | NoTimeSlots

text \<open>
  The object \<^verbatim>\<open>prepared\<close>: property names in insertion order, each with its array. Weekday
  names are taken to be ordinary property names (not integer-like, not \<^verbatim>\<open>__proto__\<close>).
\<close>

type_synonym schedule = "(string \<times> event list) list"

fun assign :: "string \<Rightarrow> event list \<Rightarrow> schedule \<Rightarrow> schedule" where
  "assign k v [] = [(k, v)]"
| "assign k v ((k', v') # rest) = (if k' = k then (k, v) # rest else (k', v') # assign k v rest)"

fun bucket :: "schedule \<Rightarrow> string \<Rightarrow> event list option" where
  "bucket [] k = None"
| "bucket ((k', v) # rest) k = (if k' = k then Some v else bucket rest k)"

fun push :: "string \<Rightarrow> event \<Rightarrow> schedule \<Rightarrow> schedule" where
  "push k e [] = []"
| "push k e ((k', v) # rest) = (if k' = k then (k', v @ [e]) # rest else (k', v) # push k e rest)"

definition initPrepared :: "string list \<Rightarrow> schedule" where
  "initPrepared names = fold (\<lambda>day prepared. assign day [] prepared) names []"

section \<open>Event normalizer: \<^verbatim>\<open>prepareData\<close>\<close>

subsection \<open>Strings and numbers\<close>

definition isDigit :: "char \<Rightarrow> bool" where
  "isDigit c = (c \<in> set ''0123456789'')"

definition digitVal :: "char \<Rightarrow> int" where
  "digitVal c = int (of_char c) - 48"

text \<open>\<^verbatim>\<open>Number(s)\<close> on a string of decimal digits.\<close>

definition numberOf :: "string \<Rightarrow> int" where
  "numberOf s = foldl (\<lambda>n c. 10 * n + digitVal c) 0 s"

text \<open>\<^verbatim>\<open>s.split(sep)\<close> for a one-character separator.\<close>

fun split :: "char \<Rightarrow> string \<Rightarrow> string list" where
  "split sep [] = [[]]"
| "split sep (c # cs) =
     (if c = sep then [] # split sep cs
      else (case split sep cs of [] \<Rightarrow> [[c]] | p # ps \<Rightarrow> (c # p) # ps))"

subsection \<open>\<^verbatim>\<open>getDayOfWeek\<close>\<close>

text \<open>
  The expression \<^verbatim>\<open>new Date(parts[2], parts[1] - 1, parts[0]).getDay()\<close> is evaluated by the
  platform: the conversion of the three strings to numbers, the calendar of \<^verbatim>\<open>Date\<close>, its
  range and the local time zone. It enters the model as a parameter \<open>getDay\<close>, a function of
  the array \<^verbatim>\<open>parts\<close> whose value \<open>None\<close> stands for \<^verbatim>\<open>NaN\<close>. Whatever is proved below is proved
  for every such function.
\<close>

type_synonym platform_date = "string list \<Rightarrow> nat option"

text \<open>The array \<^verbatim>\<open>days\<close>: version 1 has no seventh entry, so \<^verbatim>\<open>days[6]\<close> is \<^verbatim>\<open>undefined\<close>.\<close>

fun days :: "version \<Rightarrow> string list" where
  "days V1 = [''Sunday'', ''Monday'', ''Tuesday'', ''Wednesday'', ''Thursday'', ''Friday'']"
| "days V2 = [''Sunday'', ''Monday'', ''Tuesday'', ''Wednesday'', ''Thursday'', ''Friday'', ''Saturday'']"

definition getDayOfWeek :: "platform_date \<Rightarrow> version \<Rightarrow> string \<Rightarrow> string option" where
  "getDayOfWeek getDay ver dateStr =
     (case getDay (split (CHR ''/'') dateStr) of
        None \<Rightarrow> None
      | Some i \<Rightarrow> (if i < length (days ver) then Some (days ver ! i) else None))"

text \<open>\<^verbatim>\<open>prepared[day]\<close>: the property name of \<^verbatim>\<open>undefined\<close> is the string "undefined".\<close>

definition propertyKey :: "string option \<Rightarrow> string" where
  "propertyKey day = (case day of None \<Rightarrow> ''undefined'' | Some d \<Rightarrow> d)"

subsection \<open>\<^verbatim>\<open>processTime\<close>\<close>

text \<open>
  The regular expression \<^verbatim>\<open>/(\d{1,2}:\d{2})-(\d{1,2}:\d{2})/\<close> is not anchored: \<^verbatim>\<open>match\<close>
  returns the leftmost match. At one position, the two-digit and the one-digit reading of
  \<^verbatim>\<open>\d{1,2}:\<close> exclude each other (the second character is a digit or a colon), so trying the
  greedy reading first and the other one next is all the backtracking there is.
\<close>

definition hourMinute2 :: "string \<Rightarrow> (string \<times> string) option" where
  "hourMinute2 s =
     (case s of
        h1 # h2 # c # m1 # m2 # rest \<Rightarrow>
          (if isDigit h1 \<and> isDigit h2 \<and> c = CHR '':'' \<and> isDigit m1 \<and> isDigit m2
           then Some ([h1, h2, c, m1, m2], rest) else None)
      | _ \<Rightarrow> None)"

definition hourMinute1 :: "string \<Rightarrow> (string \<times> string) option" where
  "hourMinute1 s =
     (case s of
        h1 # c # m1 # m2 # rest \<Rightarrow>
          (if isDigit h1 \<and> c = CHR '':'' \<and> isDigit m1 \<and> isDigit m2
           then Some ([h1, c, m1, m2], rest) else None)
      | _ \<Rightarrow> None)"

definition hourMinute :: "string \<Rightarrow> (string \<times> string) option" where
  "hourMinute s = (case hourMinute2 s of Some r \<Rightarrow> Some r | None \<Rightarrow> hourMinute1 s)"

definition matchHere :: "string \<Rightarrow> (string \<times> string) option" where
  "matchHere s =
     (case hourMinute s of
        None \<Rightarrow> None
      | Some (st, rest) \<Rightarrow>
          (case rest of
             [] \<Rightarrow> None
           | c # rest' \<Rightarrow>
               (if c = CHR ''-''
                then (case hourMinute rest' of None \<Rightarrow> None | Some (en, _) \<Rightarrow> Some (st, en))
                else None)))"

fun match :: "string \<Rightarrow> (string \<times> string) option" where
  "match [] = matchHere []"
| "match (c # cs) = (case matchHere (c # cs) of Some r \<Rightarrow> Some r | None \<Rightarrow> match cs)"

definition getMinutes :: "string \<Rightarrow> int" where
  "getMinutes time =
     (case map numberOf (split (CHR '':'') time) of
        hours # minutes # _ \<Rightarrow> hours * 60 + minutes
      | _ \<Rightarrow> 0)"

definition processTime :: "string option \<Rightarrow> error + time_info" where
  "processTime timeStr =
     (case timeStr of
        None \<Rightarrow> Inl MalformedTimeRange
      | Some s \<Rightarrow>
          (case match s of
             None \<Rightarrow> Inl MalformedTimeRange
           | Some (st, en) \<Rightarrow>
               Inr \<lparr> ti_startTime = st, ti_endTime = en,
                     ti_startMinutes = getMinutes st, ti_endMinutes = getMinutes en,
                     ti_duration = getMinutes en - getMinutes st \<rparr>))"

subsection \<open>Building the schedule\<close>

text \<open>\<^verbatim>\<open>x || d\<close> on a string or absent value: the empty string is falsy too.\<close>

definition orElse :: "string option \<Rightarrow> string \<Rightarrow> string" where
  "orElse x d = (case x of None \<Rightarrow> d | Some s \<Rightarrow> (if s = [] then d else s))"

fun categoryField :: "version \<Rightarrow> raw_event \<Rightarrow> string option" where
  "categoryField V1 ev = Categorie_typographic ev"
| "categoryField V2 ev = Categorie_ascii ev"

definition makeEvent :: "version \<Rightarrow> time_info \<Rightarrow> raw_event \<Rightarrow> event" where
  "makeEvent ver timeInfo ev =
     \<lparr> startTime = ti_startTime timeInfo,
       endTime = ti_endTime timeInfo,
       startMinutes = ti_startMinutes timeInfo,
       endMinutes = ti_endMinutes timeInfo,
       duration = ti_duration timeInfo,
       name = orElse (Matiere ev) (orElse (categoryField ver ev) ''Unspecified''),
       location = orElse (Salle ev) ''TBD'',
       staff = orElse (Personnel ev) ''N/A'',
       group = orElse (Groupe ev) ''All'',
       category = orElse (categoryField ver ev) ''Other'',
       remarks = orElse (Remarques ev) '''',
       slotIndex = None \<rparr>"

text \<open>The body of \<^verbatim>\<open>rawData.forEach\<close>: one record, the schedule so far, or the exception.\<close>

definition prepareStep :: "platform_date \<Rightarrow> version \<Rightarrow> schedule \<Rightarrow> raw_event \<Rightarrow> error + schedule" where
  "prepareStep getDay ver prepared ev =
     (case Date ev of
        None \<Rightarrow> Inl MissingDate
      | Some dateStr \<Rightarrow>
          (let day = propertyKey (getDayOfWeek getDay ver dateStr) in
           case bucket prepared day of
             None \<Rightarrow> Inr prepared
           | Some _ \<Rightarrow>
               (case processTime (Heure ev) of
                  Inl e \<Rightarrow> Inl e
                | Inr timeInfo \<Rightarrow> Inr (push day (makeEvent ver timeInfo ev) prepared))))"

fun forEach :: "('s \<Rightarrow> 'a \<Rightarrow> error + 's) \<Rightarrow> 'a list \<Rightarrow> 's \<Rightarrow> error + 's" where
  "forEach f [] s = Inr s"
| "forEach f (x # xs) s = (case f s x of Inl e \<Rightarrow> Inl e | Inr s' \<Rightarrow> forEach f xs s')"

definition prepareData :: "platform_date \<Rightarrow> version \<Rightarrow> options \<Rightarrow> raw_event list \<Rightarrow> error + schedule" where
  "prepareData getDay ver opts rawData = forEach (prepareStep getDay ver) rawData (initPrepared (weekdays opts))"

section \<open>Row span: \<^verbatim>\<open>getRowSpan\<close>\<close>

fun getRowSpan :: "version \<Rightarrow> options \<Rightarrow> int \<Rightarrow> int" where
  "getRowSpan V1 opts dur = \<lceil>real_of_int dur / real_of_int (timeInterval opts)\<rceil>"
| "getRowSpan V2 opts dur =
     max (minRowSpan opts) \<lceil>real_of_int dur / real_of_int (timeInterval opts)\<rceil>"

section \<open>Time slot grid: \<^verbatim>\<open>generateTimeSlots\<close>\<close>

record timeslot =
  label :: string
  minutes :: int
  isHour :: bool
  isHalfHour :: bool

text \<open>\<^verbatim>\<open>n.toString().padStart(2, "0")\<close> for an integer.\<close>

fun natDigits :: "nat \<Rightarrow> string" where
  "natDigits n =
     (if n < 10 then [char_of (48 + n)] else natDigits (n div 10) @ [char_of (48 + n mod 10)])"

definition toString :: "int \<Rightarrow> string" where
  "toString n = (if n < 0 then CHR ''-'' # natDigits (nat (- n)) else natDigits (nat n))"

definition padStart2 :: "string \<Rightarrow> string" where
  "padStart2 s = replicate (2 - length s) (CHR ''0'') @ s"

text \<open>\<^verbatim>\<open>a % b\<close> takes the sign of the dividend.\<close>

definition remainder :: "int \<Rightarrow> int \<Rightarrow> int" where
  "remainder a b = (if 0 \<le> a then a mod \<bar>b\<bar> else - ((- a) mod \<bar>b\<bar>))"

definition makeSlot :: "int \<Rightarrow> timeslot" where
  "makeSlot time =
     (let hour = time div 60; minute = remainder time 60
      in \<lparr> label = padStart2 (toString hour) @ '':'' @ padStart2 (toString minute),
            minutes = time, isHour = (minute = 0), isHalfHour = (minute = 30) \<rparr>)"

text \<open>
  The loop \<^verbatim>\<open>for (let time = start; time < end; time += interval) slots.push(...)\<close>. It does
  not end when the interval is not positive and the start is before the end: \<open>None\<close>.
\<close>

partial_function (option) slotLoop :: "int \<Rightarrow> int \<Rightarrow> int \<Rightarrow> timeslot list \<Rightarrow> timeslot list option" where
  "slotLoop time stop interval slots =
     (if time < stop then slotLoop (time + interval) stop interval (slots @ [makeSlot time])
      else Some slots)"

declare slotLoop.simps [code]

text \<open>The two nested \<^verbatim>\<open>forEach\<close> of version 2 over \<^verbatim>\<open>Object.values(this.data)\<close>.\<close>

definition bounds :: "schedule \<Rightarrow> int \<times> int" where
  "bounds sched =
     fold (\<lambda>dayEvents acc.
             fold (\<lambda>ev (earliestStart, latestEnd).
                     (min earliestStart (startMinutes ev), max latestEnd (endMinutes ev)))
                  dayEvents acc)
          (map snd sched) (23 * 60 + 59, 0)"

fun generateTimeSlots :: "version \<Rightarrow> options \<Rightarrow> schedule \<Rightarrow> timeslot list option" where
  "generateTimeSlots V1 opts sched = slotLoop (8 * 60) (18 * 60) (timeInterval opts) []"
| "generateTimeSlots V2 opts sched =
     (let (earliestStart, latestEnd) = bounds sched;
          earliestStart' =
            \<lfloor>real_of_int earliestStart / real_of_int (timeInterval opts)\<rfloor> * timeInterval opts;
          latestEnd' =
            \<lceil>real_of_int latestEnd / real_of_int (timeInterval opts)\<rceil> * timeInterval opts
      in slotLoop earliestStart' latestEnd' (timeInterval opts) [])"

section \<open>Slot assignment and layout: \<^verbatim>\<open>getTimeSlotIndex\<close>, \<^verbatim>\<open>render\<close>\<close>

definition getTimeSlotIndex :: "options \<Rightarrow> timeslot list \<Rightarrow> int \<Rightarrow> error + int" where
  "getTimeSlotIndex opts timeSlots timeInMinutes =
     (case timeSlots of
        [] \<Rightarrow> Inl NoTimeSlots
      | first # _ \<Rightarrow>
          (let slotIdx =
                 \<lfloor>real_of_int (timeInMinutes - minutes first) / real_of_int (timeInterval opts)\<rfloor>
           in Inr (max 0 (min slotIdx (int (length timeSlots) - 1)))))"

text \<open>
  What \<^verbatim>\<open>render\<close> builds, without the presentation: the events of each day after the in-place
  sort (and, in version 1, with their \<^verbatim>\<open>slotIndex\<close>), the object \<^verbatim>\<open>cellOccupied\<close> as the set of
  the (day, row) pairs set to \<^verbatim>\<open>true\<close>, and for each \<^verbatim>\<open>tr\<close> the day cells appended to it after
  the time cell, in order, each with the day whose iteration appended it.
\<close>

text \<open>
  A \<^verbatim>\<open>td\<close> of a day: an event cell with its event and the value of \<^verbatim>\<open>rowSpan\<close> computed for it
  (written to the \<^verbatim>\<open>rowspan\<close> attribute when above 1), or an empty cell.
\<close>

datatype cell = EventCell event int | EmptyCell

record layout =
  sorted_data :: schedule
  cellOccupied :: "(string \<times> nat) set"
  rows :: "(string \<times> cell) list list"

text \<open>\<^verbatim>\<open>this.data[day].sort((a, b) => a.startMinutes - b.startMinutes)\<close>: the sort of an array is
  stable (ECMAScript 2019), and the stable sort by a key is unique.\<close>

definition sortDays :: "schedule \<Rightarrow> schedule" where
  "sortDays sched = map (\<lambda>(day, events). (day, sort_key startMinutes events)) sched"

fun mapE :: "('a \<Rightarrow> error + 'b) \<Rightarrow> 'a list \<Rightarrow> error + 'b list" where
  "mapE f [] = Inr []"
| "mapE f (x # xs) =
     (case f x of
        Inl e \<Rightarrow> Inl e
      | Inr y \<Rightarrow> (case mapE f xs of Inl e \<Rightarrow> Inl e | Inr ys \<Rightarrow> Inr (y # ys)))"

text \<open>The pre-processing pass of version 1: \<^verbatim>\<open>event.slotIndex = this.getTimeSlotIndex(...)\<close>.\<close>

definition setSlotIndex :: "options \<Rightarrow> timeslot list \<Rightarrow> event \<Rightarrow> error + event" where
  "setSlotIndex opts timeSlots ev =
     (case getTimeSlotIndex opts timeSlots (startMinutes ev) of
        Inl e \<Rightarrow> Inl e
      | Inr i \<Rightarrow> Inr (ev\<lparr>slotIndex := Some i\<rparr>))"

fun assignSlots :: "version \<Rightarrow> options \<Rightarrow> timeslot list \<Rightarrow> schedule \<Rightarrow> error + schedule" where
  "assignSlots V1 opts timeSlots sched =
     mapE (\<lambda>(day, events).
             case mapE (setSlotIndex opts timeSlots) events of
               Inl e \<Rightarrow> Inl e
             | Inr events' \<Rightarrow> Inr (day, events'))
          sched"
| "assignSlots V2 opts timeSlots sched = Inr sched"

text \<open>The predicate of \<^verbatim>\<open>this.data[day].filter(...)\<close> in the row \<open>slotIdx\<close> of slot \<open>timeSlot\<close>.\<close>

fun startsHere :: "version \<Rightarrow> options \<Rightarrow> timeslot \<Rightarrow> nat \<Rightarrow> event \<Rightarrow> bool" where
  "startsHere V1 opts timeSlot slotIdx ev = (slotIndex ev = Some (int slotIdx))"
| "startsHere V2 opts timeSlot slotIdx ev =
     (startMinutes ev \<ge> minutes timeSlot \<and> startMinutes ev < minutes timeSlot + timeInterval opts)"

text \<open>
  The loop \<^verbatim>\<open>for (let i = 1; i < rowSpan && slotIndex + i < this.timeSlots.length; i++)
  cellOccupied[day][slotIndex + i] = true\<close>, from the value \<open>i\<close> of its counter.
\<close>

function markOccupied ::
  "string \<Rightarrow> nat \<Rightarrow> int \<Rightarrow> nat \<Rightarrow> nat \<Rightarrow> (string \<times> nat) set \<Rightarrow> (string \<times> nat) set" where
  "markOccupied day slotIdx rowSpan len i occ =
     (if int i < rowSpan \<and> slotIdx + i < len
      then markOccupied day slotIdx rowSpan len (Suc i) (insert (day, slotIdx + i) occ)
      else occ)"
  by pat_completeness auto
termination
  by (relation "measure (\<lambda>(day, slotIdx, rowSpan, len, i, occ). len - (slotIdx + i))") auto

declare markOccupied.simps [simp del]

text \<open>The body of \<^verbatim>\<open>eventsStartingHere.forEach\<close>: one event cell, and the rows below it.\<close>

definition placeEvent ::
  "version \<Rightarrow> options \<Rightarrow> nat \<Rightarrow> string \<Rightarrow> nat \<Rightarrow> event \<Rightarrow>
   (string \<times> nat) set \<times> (string \<times> cell) list \<Rightarrow> (string \<times> nat) set \<times> (string \<times> cell) list" where
  "placeEvent ver opts len day slotIdx ev st =
     (let rowSpan = getRowSpan ver opts (duration ev);
          occ = (if rowSpan > 1 then markOccupied day slotIdx rowSpan len 1 (fst st) else fst st)
      in (occ, snd st @ [(day, EventCell ev rowSpan)]))"

text \<open>The constant \<^verbatim>\<open>eventsStartingHere\<close>: \<^verbatim>\<open>this.data[day].filter(...)\<close>.\<close>

definition eventsStartingHere ::
  "version \<Rightarrow> options \<Rightarrow> schedule \<Rightarrow> timeslot \<Rightarrow> nat \<Rightarrow> string \<Rightarrow> event list" where
  "eventsStartingHere ver opts sched timeSlot slotIdx day =
     filter (startsHere ver opts timeSlot slotIdx)
       (case bucket sched day of None \<Rightarrow> [] | Some es \<Rightarrow> es)"

text \<open>The body of \<^verbatim>\<open>days.forEach\<close> inside one row.\<close>

definition renderDay ::
  "version \<Rightarrow> options \<Rightarrow> nat \<Rightarrow> schedule \<Rightarrow> timeslot \<Rightarrow> nat \<Rightarrow> string \<Rightarrow>
   (string \<times> nat) set \<times> (string \<times> cell) list \<Rightarrow> (string \<times> nat) set \<times> (string \<times> cell) list" where
  "renderDay ver opts len sched timeSlot slotIdx day st =
     (if (day, slotIdx) \<in> fst st then st
      else if length (eventsStartingHere ver opts sched timeSlot slotIdx day) > 0
      then fold (placeEvent ver opts len day slotIdx)
             (eventsStartingHere ver opts sched timeSlot slotIdx day) st
      else if (day, slotIdx) \<notin> fst st then (fst st, snd st @ [(day, EmptyCell)])
      else st)"

text \<open>The body of \<^verbatim>\<open>this.timeSlots.forEach((timeSlot, slotIndex) => ...)\<close> and the loop itself.\<close>

definition renderRow ::
  "version \<Rightarrow> options \<Rightarrow> nat \<Rightarrow> schedule \<Rightarrow> timeslot \<Rightarrow> nat \<Rightarrow>
   (string \<times> nat) set \<times> (string \<times> cell) list list \<Rightarrow> (string \<times> nat) set \<times> (string \<times> cell) list list" where
  "renderRow ver opts len sched timeSlot slotIdx st =
     (let r = fold (renderDay ver opts len sched timeSlot slotIdx) (map fst sched) (fst st, [])
      in (fst r, snd st @ [snd r]))"

fun renderRows ::
  "version \<Rightarrow> options \<Rightarrow> nat \<Rightarrow> schedule \<Rightarrow> nat \<Rightarrow> timeslot list \<Rightarrow>
   (string \<times> nat) set \<times> (string \<times> cell) list list \<Rightarrow> (string \<times> nat) set \<times> (string \<times> cell) list list" where
  "renderRows ver opts len sched slotIdx [] st = st"
| "renderRows ver opts len sched slotIdx (timeSlot # rest) st =
     renderRows ver opts len sched (Suc slotIdx) rest (renderRow ver opts len sched timeSlot slotIdx st)"

text \<open>
  \<^verbatim>\<open>render\<close>: nothing is built when the container was not found (\<open>None\<close>); an exception of the
  pre-processing pass leaves the method.
\<close>

definition render ::
  "version \<Rightarrow> bool \<Rightarrow> options \<Rightarrow> timeslot list \<Rightarrow> schedule \<Rightarrow> error + layout option" where
  "render ver container opts timeSlots sched =
     (if \<not> container then Inr None
      else
        (case assignSlots ver opts timeSlots (sortDays sched) of
           Inl e \<Rightarrow> Inl e
         | Inr sched' \<Rightarrow>
             (let r = renderRows ver opts (length timeSlots) sched' 0 timeSlots ({}, [])
              in Inr (Some \<lparr> sorted_data = sched', cellOccupied = fst r, rows = snd r \<rparr>))))"

text \<open>
  The constructor: \<^verbatim>\<open>prepareData\<close>, \<^verbatim>\<open>generateTimeSlots\<close>, \<^verbatim>\<open>render\<close>. \<open>None\<close>: it does not
  return (the slot loop does not end).
\<close>

definition construct ::
  "platform_date \<Rightarrow> version \<Rightarrow> bool \<Rightarrow> options \<Rightarrow> raw_event list \<Rightarrow> (error + layout option) option" where
  "construct getDay ver container opts rawData =
     (case prepareData getDay ver opts rawData of
        Inl e \<Rightarrow> Some (Inl e)
      | Inr sched \<Rightarrow>
          (case generateTimeSlots ver opts sched of
             None \<Rightarrow> None
           | Some timeSlots \<Rightarrow> Some (render ver container opts timeSlots sched)))"

section \<open>Example inputs\<close>

text \<open>
  The platform function of the examples. For a date written \<^verbatim>\<open>dd/mm/yyyy\<close> with decimal digits
  it follows the day arithmetic of the ECMAScript standard (DayFromYear, MakeDay, WeekDay;
  1 January 1970 is a Thursday; a year from 0 to 99 means 1900 + year; a day number beyond
  100 000 000 is outside the range of \<^verbatim>\<open>Date\<close>, the very last day, which depends on the time
  zone, left out). Its value on other strings (\<open>None\<close>) is not a statement about the platform:
  the examples use dates of that form only.
\<close>

definition decimalComponent :: "string \<Rightarrow> int option" where
  "decimalComponent s = (if s \<noteq> [] \<and> list_all isDigit s then Some (numberOf s) else None)"

definition dayFromYear :: "int \<Rightarrow> int" where
  "dayFromYear y = 365 * (y - 1970) + (y - 1969) div 4 - (y - 1901) div 100 + (y - 1601) div 400"

definition inLeapYear :: "int \<Rightarrow> bool" where
  "inLeapYear y = ((y mod 4 = 0 \<and> y mod 100 \<noteq> 0) \<or> y mod 400 = 0)"

definition dayBeforeMonth :: "int \<Rightarrow> bool \<Rightarrow> int" where
  "dayBeforeMonth m leap =
     [0, 31, 59, 90, 120, 151, 181, 212, 243, 273, 304, 334] ! nat m + (if leap \<and> 2 \<le> m then 1 else 0)"

definition makeDay :: "int \<Rightarrow> int \<Rightarrow> int \<Rightarrow> int" where
  "makeDay year month dt =
     (let ym = year + month div 12; mn = month mod 12
      in dayFromYear ym + dayBeforeMonth mn (inLeapYear ym) + dt - 1)"

definition weekDay :: "int \<Rightarrow> nat" where
  "weekDay day = nat ((day + 4) mod 7)"

definition calendarDay :: platform_date where
  "calendarDay parts =
     (case parts of
        p0 # p1 # p2 # _ \<Rightarrow>
          (case (decimalComponent p2, decimalComponent p1, decimalComponent p0) of
             (Some y, Some m, Some d) \<Rightarrow>
               (let day = makeDay (if 0 \<le> y \<and> y \<le> 99 then 1900 + y else y) (m - 1) d
                in if - 100000000 < day \<and> day < 100000000 then Some (weekDay day) else None)
           | _ \<Rightarrow> None)
      | _ \<Rightarrow> None)"

text \<open>A raw record with a date and a time range and no other field.\<close>

definition rawRecord :: "string \<Rightarrow> string \<Rightarrow> raw_event" where
  "rawRecord date heure =
     \<lparr> Date = Some date, Heure = Some heure, Matiere = None, Salle = None, Personnel = None,
       Groupe = None, Categorie_typographic = None, Categorie_ascii = None, Remarques = None \<rparr>"

text \<open>The schedule built from raw records, for examples whose records are well-formed.\<close>

definition scheduleOf :: "platform_date \<Rightarrow> version \<Rightarrow> options \<Rightarrow> raw_event list \<Rightarrow> schedule" where
  "scheduleOf getDay ver opts rawData = (case prepareData getDay ver opts rawData of Inr s \<Rightarrow> s | Inl e \<Rightarrow> [])"

text \<open>Two events between 09:05 and 10:50, on a Monday and on a Tuesday.\<close>

definition gridExample :: "raw_event list" where
  "gridExample = [rawRecord ''10/03/2025'' ''10:00-10:50'', rawRecord ''11/03/2025'' ''9:05-10:00'']"

text \<open>The layout built from raw records into an existing container, for well-formed examples.\<close>

definition layoutOf :: "platform_date \<Rightarrow> version \<Rightarrow> options \<Rightarrow> raw_event list \<Rightarrow> layout" where
  "layoutOf getDay ver opts rawData =
     (case construct getDay ver True opts rawData of
        Some (Inr (Some lay)) \<Rightarrow> lay
      | _ \<Rightarrow> \<lparr> sorted_data = [], cellOccupied = {}, rows = [] \<rparr>)"

text \<open>A record with a date, a time range and a subject.\<close>

definition course :: "string \<Rightarrow> string \<Rightarrow> string \<Rightarrow> raw_event" where
  "course date heure subject = (rawRecord date heure)\<lparr>Matiere := Some subject\<rparr>"

text \<open>The default options with rows of 30 minutes.\<close>

definition options30 :: options where
  "options30 = defaults\<lparr>timeInterval := 30\<rparr>"

text \<open>Two overlapping events on Monday 10 March 2025, and a third one after them.\<close>

definition overlapExample :: "raw_event list" where
  "overlapExample =
     [course ''10/03/2025'' ''9:00-10:00'' ''A'', course ''10/03/2025'' ''9:30-10:30'' ''B'',
      course ''10/03/2025'' ''11:00-12:00'' ''C'']"

text \<open>
  Events outside the 08:00-18:00 grid of version 1: E starts before it, L after it, and A
  ends the day inside it.
\<close>

definition edgeExample :: "raw_event list" where
  "edgeExample =
     [course ''10/03/2025'' ''7:00-8:30'' ''E'', course ''10/03/2025'' ''17:00-18:00'' ''A'',
      course ''10/03/2025'' ''20:00-21:00'' ''L'']"

text \<open>An event of duration zero that starts where the last event ends.\<close>

definition zeroExample :: "raw_event list" where
  "zeroExample =
     [course ''10/03/2025'' ''9:00-10:00'' ''A'', course ''10/03/2025'' ''10:00-10:00'' ''B'']"

text \<open>Three events on the same Monday, two of them starting at 10:00.\<close>

definition sortExample :: "raw_event list" where
  "sortExample =
     [course ''10/03/2025'' ''10:00-11:00'' ''A'', course ''10/03/2025'' ''9:00-10:00'' ''B'',
      course ''10/03/2025'' ''10:00-10:30'' ''C'']"

section \<open>Notions of the specification\<close>

text \<open>
  The rows below row \<open>s\<close> that a span of \<open>rowSpan\<close> rows starting at \<open>s\<close> covers in a grid of
  \<open>len\<close> rows: \<open>s + 1\<close> to \<open>s + rowSpan - 1\<close>, cut at the grid length.
\<close>

definition spanRows :: "nat \<Rightarrow> int \<Rightarrow> nat \<Rightarrow> nat set" where
  "spanRows s rowSpan len = set (filter (\<lambda>r. int r < int s + rowSpan) [Suc s..<len])"

text \<open>
  A raw record resolves to a day when its date gives that bucket name; an event is the
  normal form of a raw record when it is built from it with its parsed time range.
\<close>

definition resolvesTo :: "platform_date \<Rightarrow> version \<Rightarrow> string \<Rightarrow> raw_event \<Rightarrow> bool" where
  "resolvesTo getDay ver day r =
     (case Date r of None \<Rightarrow> False | Some dateStr \<Rightarrow> propertyKey (getDayOfWeek getDay ver dateStr) = day)"

definition normalizes :: "version \<Rightarrow> raw_event \<Rightarrow> event \<Rightarrow> bool" where
  "normalizes ver r ev = (\<exists>timeInfo. processTime (Heure r) = Inr timeInfo \<and> ev = makeEvent ver timeInfo r)"

text \<open>The events that have a cell in a layout.\<close>

definition renderedEvents :: "layout \<Rightarrow> event list" where
  "renderedEvents lay =
     concat (map (\<lambda>p. case snd p of EventCell ev rowSpan \<Rightarrow> [ev] | EmptyCell \<Rightarrow> [])
                 (concat (rows lay)))"


text \<open>The times \<open>g\<close>, \<open>g + i\<close>, ..., \<open>g + (n - 1) i\<close>: a grid of \<open>n\<close> rows from \<open>g\<close> in steps of \<open>i\<close>.\<close>

definition gridTimes :: "int \<Rightarrow> int \<Rightarrow> nat \<Rightarrow> int list" where
  "gridTimes g i n = map (\<lambda>k. g + int k * i) [0..<n]"

text \<open>
  The slot index in the words of the specification: the index of the first slot whose
  window holds the start, else row 0 for a start before the first slot and the last row
  otherwise. To be compared with \<open>getTimeSlotIndex\<close>.
\<close>

fun findIndex :: "('a \<Rightarrow> bool) \<Rightarrow> 'a list \<Rightarrow> nat option" where
  "findIndex P [] = None"
| "findIndex P (x # xs) = (if P x then Some 0 else map_option Suc (findIndex P xs))"

definition spec_slotIndex :: "int \<Rightarrow> timeslot list \<Rightarrow> int \<Rightarrow> int" where
  "spec_slotIndex interval slots start =
     (case findIndex (\<lambda>s. minutes s \<le> start \<and> start < minutes s + interval) slots of
        Some k \<Rightarrow> int k
      | None \<Rightarrow>
          (case slots of
             [] \<Rightarrow> 0
           | first # _ \<Rightarrow> (if start < minutes first then 0 else int (length slots) - 1)))"

text \<open>
  What one unoccupied cell position contributes: the pairs marked for a day by the events
  that start in row \<open>s\<close>, and the cells appended for that day in row \<open>s\<close>; then the same for
  a whole row, over the days whose position in row \<open>s\<close> is not in \<open>occ\<close>.
\<close>

definition dayMarks ::
  "version \<Rightarrow> options \<Rightarrow> nat \<Rightarrow> schedule \<Rightarrow> timeslot \<Rightarrow> nat \<Rightarrow> string \<Rightarrow> (string \<times> nat) set" where
  "dayMarks ver opts len sched timeSlot s day =
     (\<Union>ev \<in> set (eventsStartingHere ver opts sched timeSlot s day).
        Pair day ` spanRows s (getRowSpan ver opts (duration ev)) len)"

definition dayCells ::
  "version \<Rightarrow> options \<Rightarrow> schedule \<Rightarrow> timeslot \<Rightarrow> nat \<Rightarrow> string \<Rightarrow> (string \<times> cell) list" where
  "dayCells ver opts sched timeSlot s day =
     (if eventsStartingHere ver opts sched timeSlot s day = [] then [(day, EmptyCell)]
      else map (\<lambda>ev. (day, EventCell ev (getRowSpan ver opts (duration ev))))
             (eventsStartingHere ver opts sched timeSlot s day))"

definition rowMarks ::
  "version \<Rightarrow> options \<Rightarrow> nat \<Rightarrow> schedule \<Rightarrow> (string \<times> nat) set \<Rightarrow> timeslot \<Rightarrow> nat \<Rightarrow> (string \<times> nat) set" where
  "rowMarks ver opts len sched occ timeSlot s =
     (\<Union>day \<in> {day \<in> fst ` set sched. (day, s) \<notin> occ}. dayMarks ver opts len sched timeSlot s day)"

definition rowCells ::
  "version \<Rightarrow> options \<Rightarrow> schedule \<Rightarrow> (string \<times> nat) set \<Rightarrow> timeslot \<Rightarrow> nat \<Rightarrow> (string \<times> cell) list" where
  "rowCells ver opts sched occ timeSlot s =
     concat (map (\<lambda>day. if (day, s) \<in> occ then [] else dayCells ver opts sched timeSlot s day)
                 (map fst sched))"

section \<open>Row span\<close>

lemma ceiling_least:
  fixes d i :: int
  assumes "0 < i"
  shows "(\<lceil>real_of_int d / real_of_int i\<rceil> - 1) * i < d \<and> d \<le> \<lceil>real_of_int d / real_of_int i\<rceil> * i"
proof -
  define q where "q = (- d) div i"
  define r where "r = (- d) mod i"
  have c: "\<lceil>real_of_int d / real_of_int i\<rceil> = - q"
    unfolding q_def by (rule ceiling_divide_eq_div)
  have e: "i * q + r = - d" unfolding q_def r_def by simp
  have r: "0 \<le> r" "r < i" using assms unfolding r_def by simp_all
  have "(- q - 1) * i = - (i * q) - i" "- q * i = - (i * q)" by (simp_all add: algebra_simps)
  then show ?thesis using e r unfolding c by linarith
qed

text \<open>
  Claim C2. For a positive interval, the row span of version 1 (policy A) is the ceiling of
  duration / interval, that is the least number of rows whose total length covers the
  duration, with no minimum; the row span of version 2 (policy B) is the maximum of
  \<^verbatim>\<open>minRowSpan\<close> and that ceiling. With interval 15, a duration of 60 gives 4 under both policies
  (for \<^verbatim>\<open>minRowSpan\<close> 2); with interval 15 and \<^verbatim>\<open>minRowSpan\<close> 2, a duration of 10 gives 2 under
  policy B.
\<close>

theorem getRowSpan_policies:
  assumes "0 < timeInterval opts"
  shows "(getRowSpan V1 opts d - 1) * timeInterval opts < d
       \<and> d \<le> getRowSpan V1 opts d * timeInterval opts
       \<and> getRowSpan V2 opts d = max (minRowSpan opts) (getRowSpan V1 opts d)
       \<and> (timeInterval opts = 15 \<longrightarrow>
            getRowSpan V1 opts 60 = 4 \<and> getRowSpan V2 opts 60 = max (minRowSpan opts) 4)
       \<and> (timeInterval opts = 15 \<and> minRowSpan opts = 2 \<longrightarrow>
            getRowSpan V2 opts 60 = 4 \<and> getRowSpan V2 opts 10 = 2)"
  using ceiling_least [OF assms, of d] by simp

text \<open>
  The scenario of the claim, from the time strings: 14:00-15:00 lasts 60 minutes and
  14:00-14:10 lasts 10 minutes; with the default options (interval 15, \<^verbatim>\<open>minRowSpan\<close> 2).
\<close>

theorem getRowSpan_policies_witness:
  "0 < timeInterval defaults
   \<and> map_sum id ti_duration (processTime (Some ''14:00-15:00'')) = Inr 60
   \<and> map_sum id ti_duration (processTime (Some ''14:00-14:10'')) = Inr 10
   \<and> getRowSpan V1 defaults 60 = 4 \<and> getRowSpan V2 defaults 60 = 4
   \<and> getRowSpan V1 defaults 10 = 1 \<and> getRowSpan V2 defaults 10 = 2"
proof -
  have h: "0 < timeInterval defaults" by (simp add: defaults_def)
  have p1: "map_sum id ti_duration (processTime (Some ''14:00-15:00'')) = Inr 60" by code_simp
  have p2: "map_sum id ti_duration (processTime (Some ''14:00-14:10'')) = Inr 10" by code_simp
  have "getRowSpan V1 defaults 10 = 1" by (simp add: defaults_def)
  with h p1 p2 getRowSpan_policies [OF h, of 60] show ?thesis
    by (simp add: defaults_def)
qed

section \<open>Event normalizer\<close>

lemma forEach_append:
  "forEach f (xs @ ys) s = (case forEach f xs s of Inl e \<Rightarrow> Inl e | Inr s' \<Rightarrow> forEach f ys s')"
  by (induction xs arbitrary: s) (auto split: sum.splits)

lemma keys_push: "map fst (push k e s) = map fst s"
  by (induction s) auto

lemma keys_assign: "fst ` set (assign k v s) = insert k (fst ` set s)"
proof (induction s)
  case Nil
  then show ?case by simp
next
  case (Cons p s)
  obtain k' v' where p: "p = (k', v')" by (cases p)
  show ?case using Cons unfolding p by (cases "k' = k") auto
qed

lemma keys_fold_assign:
  "fst ` set (fold (\<lambda>day prepared. assign day [] prepared) names s) = set names \<union> fst ` set s"
  by (induction names arbitrary: s) (simp_all add: keys_assign)

lemma keys_initPrepared: "fst ` set (initPrepared names) = set names"
  by (simp add: initPrepared_def keys_fold_assign)

lemma bucket_None: "bucket s k = None \<longleftrightarrow> k \<notin> fst ` set s"
proof (induction s)
  case Nil
  then show ?case by simp
next
  case (Cons p s)
  obtain k' v' where p: "p = (k', v')" by (cases p)
  show ?case using Cons unfolding p by (cases "k' = k") auto
qed

lemma keys_prepareStep: "prepareStep getDay ver s r = Inr s' \<Longrightarrow> map fst s' = map fst s"
  by (auto simp: prepareStep_def Let_def keys_push split: option.splits sum.splits)

lemma keys_forEach: "forEach (prepareStep getDay ver) xs s = Inr s' \<Longrightarrow> map fst s' = map fst s"
proof (induction xs arbitrary: s)
  case Nil
  then show ?case by simp
next
  case (Cons x xs)
  then show ?case by (auto split: sum.splits dest: keys_prepareStep)
qed

lemma keys_prepareData: "prepareData getDay ver opts xs = Inr s \<Longrightarrow> fst ` set s = set (weekdays opts)"
  unfolding prepareData_def using keys_forEach [of getDay ver xs "initPrepared (weekdays opts)" s]
    keys_initPrepared [of "weekdays opts"] by (metis set_map)

lemma prepareStep_dropped:
  assumes "Date r = Some ds" and "propertyKey (getDayOfWeek getDay ver ds) \<notin> fst ` set s"
  shows "prepareStep getDay ver s r = Inr s"
  using assms by (simp add: prepareStep_def Let_def bucket_None [symmetric])

lemma prepareStep_malformed:
  assumes "Date r = Some ds" and "propertyKey (getDayOfWeek getDay ver ds) \<in> fst ` set s"
    and "Heure r = Some t" and "match t = None"
  shows "prepareStep getDay ver s r = Inl MalformedTimeRange"
proof -
  from assms(2) obtain es where "bucket s (propertyKey (getDayOfWeek getDay ver ds)) = Some es"
    using bucket_None by (cases "bucket s (propertyKey (getDayOfWeek getDay ver ds))") auto
  then show ?thesis using assms by (simp add: prepareStep_def Let_def processTime_def)
qed

text \<open>
  Claim C7. Whatever the platform function of dates, a record whose date resolves to a day
  that is not a configured weekday is dropped: the schedule built from a sequence of records that contains it is the one built
  from the sequence without it (also when that is an exception of another record), and alone
  it gives the empty buckets and no exception.
\<close>

theorem excluded_day_dropped:
  assumes "Date r = Some ds" and "propertyKey (getDayOfWeek getDay ver ds) \<notin> set (weekdays opts)"
  shows "prepareData getDay ver opts (xs @ r # ys) = prepareData getDay ver opts (xs @ ys)
       \<and> prepareData getDay ver opts [r] = Inr (initPrepared (weekdays opts))"
proof -
  have one: "prepareData getDay ver opts [r] = Inr (initPrepared (weekdays opts))"
    using prepareStep_dropped [OF assms(1), of getDay ver "initPrepared (weekdays opts)"] assms(2)
    by (simp add: prepareData_def keys_initPrepared)
  have "prepareData getDay ver opts (xs @ r # ys) = prepareData getDay ver opts (xs @ ys)"
  proof (cases "prepareData getDay ver opts xs")
    case (Inl e)
    then show ?thesis by (simp add: prepareData_def forEach_append)
  next
    case (Inr s)
    then have "propertyKey (getDayOfWeek getDay ver ds) \<notin> fst ` set s"
      using assms(2) keys_prepareData by blast
    then have "prepareStep getDay ver s r = Inr s" using assms(1) by (rule prepareStep_dropped [rotated])
    with Inr show ?thesis by (simp add: prepareData_def forEach_append)
  qed
  with one show ?thesis by simp
qed

text \<open>
  15 March 2025 is a Saturday: version 2 resolves it to "Saturday", version 1 (whose array
  of names has six entries) to \<^verbatim>\<open>undefined\<close>; with the weekdays Monday to Friday the record
  is dropped by both.
\<close>

theorem excluded_day_dropped_witness:
  "getDayOfWeek calendarDay V2 ''15/03/2025'' = Some ''Saturday''
   \<and> getDayOfWeek calendarDay V1 ''15/03/2025'' = None
   \<and> prepareData calendarDay V1 defaults [rawRecord ''10/03/2025'' ''14:00-15:00'', rawRecord ''15/03/2025'' ''9:00-10:00'']
       = prepareData calendarDay V1 defaults [rawRecord ''10/03/2025'' ''14:00-15:00'']
   \<and> prepareData calendarDay V2 defaults [rawRecord ''10/03/2025'' ''14:00-15:00'', rawRecord ''15/03/2025'' ''9:00-10:00'']
       = prepareData calendarDay V2 defaults [rawRecord ''10/03/2025'' ''14:00-15:00'']
   \<and> prepareData calendarDay V2 defaults [rawRecord ''15/03/2025'' ''9:00-10:00'']
       = Inr [(''Monday'', []), (''Tuesday'', []), (''Wednesday'', []), (''Thursday'', []), (''Friday'', [])]"
proof -
  have d2: "getDayOfWeek calendarDay V2 ''15/03/2025'' = Some ''Saturday''" by code_simp
  have d1: "getDayOfWeek calendarDay V1 ''15/03/2025'' = None" by code_simp
  have D: "Date (rawRecord ''15/03/2025'' ''9:00-10:00'') = Some ''15/03/2025''"
    by (simp add: rawRecord_def)
  have k1: "propertyKey (getDayOfWeek calendarDay V1 ''15/03/2025'') \<notin> set (weekdays defaults)"
    unfolding d1 by (simp add: propertyKey_def defaults_def)
  have k2: "propertyKey (getDayOfWeek calendarDay V2 ''15/03/2025'') \<notin> set (weekdays defaults)"
    unfolding d2 by (simp add: propertyKey_def defaults_def)
  have i: "initPrepared (weekdays defaults)
      = [(''Monday'', []), (''Tuesday'', []), (''Wednesday'', []), (''Thursday'', []), (''Friday'', [])]"
    by (simp add: initPrepared_def defaults_def)
  from excluded_day_dropped [OF D k1, of "[rawRecord ''10/03/2025'' ''14:00-15:00'']" "[]"]
       excluded_day_dropped [OF D k2, of "[rawRecord ''10/03/2025'' ''14:00-15:00'']" "[]"]
       d1 d2 i
  show ?thesis by simp
qed


text \<open>
  Claim C4, amended. Whatever the platform function of dates, a record whose date resolves
  to a configured weekday and whose time range has no match of the pattern makes
  \<^verbatim>\<open>prepareData\<close> fail: the exception leaves the method,
  no schedule is returned, whatever records follow. (When an earlier record already failed,
  that exception is the one raised.)
\<close>

theorem malformed_time_fails:
  assumes "Date r = Some ds" and "propertyKey (getDayOfWeek getDay ver ds) \<in> set (weekdays opts)"
    and "Heure r = Some t" and "match t = None"
  shows "prepareData getDay ver opts (xs @ r # ys)
           = (case prepareData getDay ver opts xs of Inl e \<Rightarrow> Inl e | Inr p \<Rightarrow> Inl MalformedTimeRange)"
proof (cases "prepareData getDay ver opts xs")
  case (Inl e)
  then show ?thesis by (simp add: prepareData_def forEach_append)
next
  case (Inr s)
  then have "propertyKey (getDayOfWeek getDay ver ds) \<in> fst ` set s"
    using assms(2) keys_prepareData by blast
  then have "prepareStep getDay ver s r = Inl MalformedTimeRange"
    using assms(1,3,4) prepareStep_malformed by blast
  with Inr show ?thesis by (simp add: prepareData_def forEach_append)
qed

text \<open>
  The string "9h00-10h00" on Monday 10 March 2025, between two well-formed records.
\<close>

theorem malformed_time_fails_witness:
  "match ''9h00-10h00'' = None
   \<and> prepareData calendarDay V1 defaults
        [rawRecord ''11/03/2025'' ''8:00-9:00'', rawRecord ''10/03/2025'' ''9h00-10h00'',
         rawRecord ''12/03/2025'' ''8:00-9:00'']
       = Inl MalformedTimeRange"
proof -
  have D: "Date (rawRecord ''10/03/2025'' ''9h00-10h00'') = Some ''10/03/2025''"
    and H: "Heure (rawRecord ''10/03/2025'' ''9h00-10h00'') = Some ''9h00-10h00''"
    by (simp_all add: rawRecord_def)
  have d: "getDayOfWeek calendarDay V1 ''10/03/2025'' = Some ''Monday''" by code_simp
  have k: "propertyKey (getDayOfWeek calendarDay V1 ''10/03/2025'') \<in> set (weekdays defaults)"
    unfolding d by (simp add: propertyKey_def defaults_def)
  have m: "match ''9h00-10h00'' = None" by code_simp
  have "\<not> isl (prepareData calendarDay V1 defaults [rawRecord ''11/03/2025'' ''8:00-9:00''])"
    by code_simp
  then obtain p where p: "prepareData calendarDay V1 defaults [rawRecord ''11/03/2025'' ''8:00-9:00''] = Inr p"
    by (cases "prepareData calendarDay V1 defaults [rawRecord ''11/03/2025'' ''8:00-9:00'']") auto
  from malformed_time_fails [OF D k H m, of "[rawRecord ''11/03/2025'' ''8:00-9:00'']"
      "[rawRecord ''12/03/2025'' ''8:00-9:00'']"] p m
  show ?thesis by simp
qed

text \<open>
  Claim C4 as stated fails: the time range of a record is examined only after its day was
  found among the configured weekdays. The same malformed string on Saturday 15 March 2025
  raises nothing, and the record is skipped like any record of an excluded day.
\<close>

theorem malformed_time_skipped_counterexample:
  "Heure (rawRecord ''15/03/2025'' ''9h00-10h00'') = Some ''9h00-10h00''
   \<and> match ''9h00-10h00'' = None
   \<and> prepareData calendarDay V1 defaults [rawRecord ''15/03/2025'' ''9h00-10h00'']
       = Inr [(''Monday'', []), (''Tuesday'', []), (''Wednesday'', []), (''Thursday'', []), (''Friday'', [])]
   \<and> prepareData calendarDay V2 defaults [rawRecord ''15/03/2025'' ''9h00-10h00'']
       = Inr [(''Monday'', []), (''Tuesday'', []), (''Wednesday'', []), (''Thursday'', []), (''Friday'', [])]"
  by code_simp

lemma events_push: "set (concat (map snd (push k e s))) \<subseteq> insert e (set (concat (map snd s)))"
proof (induction s)
  case Nil
  then show ?case by simp
next
  case (Cons p s)
  obtain k' v' where p: "p = (k', v')" by (cases p)
  show ?case using Cons unfolding p by (cases "k' = k") auto
qed

lemma events_assign:
  "\<forall>p \<in> set s. snd p = [] \<Longrightarrow> \<forall>p \<in> set (assign k [] s). snd p = []"
proof (induction s)
  case Nil
  then show ?case by simp
next
  case (Cons p s)
  obtain k' v' where p: "p = (k', v')" by (cases p)
  show ?case using Cons unfolding p by (cases "k' = k") auto
qed

lemma events_fold_assign:
  "\<forall>p \<in> set s. snd p = [] \<Longrightarrow>
   \<forall>p \<in> set (fold (\<lambda>day prepared. assign day [] prepared) names s). snd p = []"
proof (induction names arbitrary: s)
  case Nil
  then show ?case by simp
next
  case (Cons n names)
  from Cons.prems have "\<forall>p \<in> set (assign n [] s). snd p = []" by (rule events_assign)
  then show ?case using Cons.IH by simp
qed

lemma events_initPrepared: "set (concat (map snd (initPrepared names))) = {}"
  using events_fold_assign [of "[]" names] by (simp add: initPrepared_def)

lemma events_prepareStep:
  assumes "prepareStep getDay ver s r = Inr s'" and "e \<in> set (concat (map snd s'))"
    and "e \<notin> set (concat (map snd s))"
  shows "\<exists>timeInfo. processTime (Heure r) = Inr timeInfo \<and> e = makeEvent ver timeInfo r"
proof (cases "Date r")
  case None
  with assms(1) show ?thesis by (simp add: prepareStep_def)
next
  case (Some ds)
  show ?thesis
  proof (cases "bucket s (propertyKey (getDayOfWeek getDay ver ds))")
    case None
    with Some assms show ?thesis by (simp add: prepareStep_def)
  next
    case b: (Some es)
    show ?thesis
    proof (cases "processTime (Heure r)")
      case (Inl x)
      with Some b assms(1) show ?thesis by (simp add: prepareStep_def)
    next
      case (Inr ti)
      with Some b assms(1) have "s' = push (propertyKey (getDayOfWeek getDay ver ds)) (makeEvent ver ti r) s"
        by (simp add: prepareStep_def)
      with assms(2,3) events_push have "e = makeEvent ver ti r" by blast
      with Inr show ?thesis by simp
    qed
  qed
qed

text \<open>
  Claim C5, amended. The event built from a record takes \<^verbatim>\<open>location\<close>, \<^verbatim>\<open>staff\<close>, \<^verbatim>\<open>group\<close>,
  \<^verbatim>\<open>category\<close> and \<^verbatim>\<open>remarks\<close> each from its own raw field, with the sentinel when that field is
  absent or empty. Its \<^verbatim>\<open>name\<close> is the subject when present, else the category field when
  present, and "Unspecified" only when both are absent or empty.
\<close>

theorem field_defaults:
  assumes "prepareData getDay ver opts [r] = Inr sched" and "e \<in> set (concat (map snd sched))"
  shows "name e = (if Matiere r \<notin> {None, Some []} then the (Matiere r)
                   else if categoryField ver r \<notin> {None, Some []} then the (categoryField ver r)
                   else ''Unspecified'')
       \<and> location e = (if Salle r \<in> {None, Some []} then ''TBD'' else the (Salle r))
       \<and> staff e = (if Personnel r \<in> {None, Some []} then ''N/A'' else the (Personnel r))
       \<and> group e = (if Groupe r \<in> {None, Some []} then ''All'' else the (Groupe r))
       \<and> category e = (if categoryField ver r \<in> {None, Some []} then ''Other'' else the (categoryField ver r))
       \<and> remarks e = (if Remarques r \<in> {None, Some []} then [] else the (Remarques r))"
proof -
  from assms(1) have "prepareStep getDay ver (initPrepared (weekdays opts)) r = Inr sched"
    by (simp add: prepareData_def split: sum.splits)
  moreover have "e \<notin> set (concat (map snd (initPrepared (weekdays opts))))"
    unfolding events_initPrepared by simp
  ultimately obtain ti where "e = makeEvent ver ti r"
    using assms(2) events_prepareStep by blast
  then show ?thesis by (auto simp: makeEvent_def orElse_def split: option.splits)
qed

text \<open>A record with a category and no subject, on Monday 10 March 2025, in version 1.\<close>

theorem field_defaults_witness:
  "prepareData calendarDay V1 defaults [(rawRecord ''10/03/2025'' ''14:00-15:00'')\<lparr>Categorie_typographic := Some ''TD''\<rparr>]
     = Inr [(''Monday'',
             [\<lparr> startTime = ''14:00'', endTime = ''15:00'', startMinutes = 840, endMinutes = 900,
                duration = 60, name = ''TD'', location = ''TBD'', staff = ''N/A'', group = ''All'',
                category = ''TD'', remarks = [], slotIndex = None \<rparr>]),
            (''Tuesday'', []), (''Wednesday'', []), (''Thursday'', []), (''Friday'', [])]"
proof -
  let ?r = "(rawRecord ''10/03/2025'' ''14:00-15:00'')\<lparr>Categorie_typographic := Some ''TD''\<rparr>"
  let ?e = "\<lparr> startTime = ''14:00'', endTime = ''15:00'', startMinutes = 840, endMinutes = 900,
                duration = 60, name = ''TD'', location = ''TBD'', staff = ''N/A'', group = ''All'',
                category = ''TD'', remarks = [], slotIndex = None \<rparr>"
  let ?s = "[(''Monday'', [?e]), (''Tuesday'', []), (''Wednesday'', []), (''Thursday'', []), (''Friday'', [])]"
  have P: "prepareData calendarDay V1 defaults [?r] = Inr ?s" by code_simp
  have M: "?e \<in> set (concat (map snd ?s))" by simp
  from field_defaults [OF P M] P show ?thesis by simp
qed

text \<open>
  Claim C5 as stated fails: with the subject absent, the name is the category when the
  record has one. Two records that differ in the category field only get different names.
\<close>

theorem name_depends_on_category_counterexample:
  "Matiere ((rawRecord ''10/03/2025'' ''14:00-15:00'')\<lparr>Categorie_typographic := Some ''TD''\<rparr>) = None
   \<and> map_sum id (map (map name \<circ> snd))
        (prepareData calendarDay V1 defaults [(rawRecord ''10/03/2025'' ''14:00-15:00'')\<lparr>Categorie_typographic := Some ''TD''\<rparr>])
       = Inr [[''TD''], [], [], [], []]
   \<and> map_sum id (map (map name \<circ> snd))
        (prepareData calendarDay V1 defaults [rawRecord ''10/03/2025'' ''14:00-15:00''])
       = Inr [[''Unspecified''], [], [], [], []]
   \<and> map_sum id (map (map name \<circ> snd))
        (prepareData calendarDay V2 defaults [(rawRecord ''10/03/2025'' ''14:00-15:00'')\<lparr>Categorie_ascii := Some ''TD''\<rparr>])
       = Inr [[''TD''], [], [], [], []]"
  by code_simp

section \<open>Time slot grid\<close>

lemma gridTimes_Suc: "gridTimes g i (Suc n) = g # gridTimes (g + i) i n"
proof -
  have "[0..<Suc n] = 0 # map Suc [0..<n]"
    by (simp add: upt_conv_Cons map_Suc_upt del: upt_Suc)
  then show ?thesis by (simp add: gridTimes_def comp_def algebra_simps del: upt_Suc)
qed

lemma slotLoop_grid:
  assumes "0 < i"
  shows "slotLoop t e i acc = Some (acc @ map makeSlot (gridTimes t i (nat ((e - t + i - 1) div i))))"
  using assms
proof (induction "nat (e - t)" arbitrary: t acc rule: less_induct)
  case less
  show ?case
  proof (cases "t < e")
    case False
    then have "(e - t + i - 1) div i \<le> (i - 1) div i"
      using less.prems by (intro zdiv_mono1) simp_all
    also have "(i - 1) div i = 0" using less.prems by simp
    finally have "(e - t + i - 1) div i \<le> 0" .
    then have "nat ((e - t + i - 1) div i) = 0" by simp
    with False show ?thesis by (subst slotLoop.simps) (simp add: gridTimes_def)
  next
    case True
    have m: "nat (e - (t + i)) < nat (e - t)" using True less.prems by simp
    have "(e - t + i - 1) div i = (e - (t + i) + i - 1) div i + 1"
    proof -
      have "e - t + i - 1 = (e - (t + i) + i - 1) + i" by simp
      then show ?thesis using less.prems by (simp only: div_add_self2)
    qed
    moreover have "0 \<le> (e - (t + i) + i - 1) div i"
      using True less.prems by (simp add: pos_imp_zdiv_nonneg_iff)
    ultimately have n: "nat ((e - t + i - 1) div i) = Suc (nat ((e - (t + i) + i - 1) div i))"
      by simp
    have "slotLoop t e i acc = slotLoop (t + i) e i (acc @ [makeSlot t])"
      using True by (subst slotLoop.simps) simp
    also have "\<dots> = Some ((acc @ [makeSlot t]) @ map makeSlot (gridTimes (t + i) i (nat ((e - (t + i) + i - 1) div i))))"
      using less.hyps [OF m less.prems] .
    finally show ?thesis unfolding n gridTimes_Suc by simp
  qed
qed

lemma bounds_inner:
  "fold (\<lambda>ev (earliestStart, latestEnd).
            (min earliestStart (startMinutes ev), max latestEnd (endMinutes ev))) es (a, b)
   = (Min (insert a (startMinutes ` set es)), Max (insert b (endMinutes ` set es)))"
proof (induction es arbitrary: a b)
  case Nil
  then show ?case by simp
next
  case (Cons x es)
  have A: "Min (insert (min a x') F) = Min (insert a (insert x' F))" if "finite F" for a x' :: int and F
    using that by (cases "F = {}") (simp_all add: min.assoc)
  have B: "Max (insert (max b x') F) = Max (insert b (insert x' F))" if "finite F" for b x' :: int and F
    using that by (cases "F = {}") (simp_all add: max.assoc)
  show ?case using Cons [of "min a (startMinutes x)" "max b (endMinutes x)"]
    by (simp add: A B)
qed


lemma fold_fold_concat: "fold (fold f) xss acc = fold f (concat xss) acc"
  by (induction xss arbitrary: acc) simp_all

lemma bounds_eq:
  "bounds sched = (Min (insert 1439 (startMinutes ` set (concat (map snd sched)))),
                   Max (insert 0 (endMinutes ` set (concat (map snd sched)))))"
proof -
  have "bounds sched = fold (\<lambda>ev (earliestStart, latestEnd).
            (min earliestStart (startMinutes ev), max latestEnd (endMinutes ev)))
          (concat (map snd sched)) (1439, 0)"
    by (simp add: bounds_def fold_fold_concat)
  then show ?thesis by (simp only: bounds_inner)
qed

lemma floor_grid:
  fixes a i :: int
  assumes "0 < i"
  shows "\<lfloor>real_of_int a / real_of_int i\<rfloor> * i \<le> a" and "a < \<lfloor>real_of_int a / real_of_int i\<rfloor> * i + i"
    and "\<lfloor>real_of_int a / real_of_int i\<rfloor> = a div i"
proof -
  show f: "\<lfloor>real_of_int a / real_of_int i\<rfloor> = a div i" by (rule floor_divide_of_int_eq)
  have e: "i * (a div i) + a mod i = a" by simp
  have r: "0 \<le> a mod i" "a mod i < i" using assms by simp_all
  have "a div i * i = i * (a div i)" by simp
  then show "\<lfloor>real_of_int a / real_of_int i\<rfloor> * i \<le> a"
    and "a < \<lfloor>real_of_int a / real_of_int i\<rfloor> * i + i"
    using e r unfolding f by linarith+
qed

text \<open>
  Claim C9. For a schedule without any event and a positive interval, the generator of
  version 2 returns, and what it returns is the empty sequence of slots: the search starts
  from 23:59 and 0, so the rounded start is not below the rounded end and the loop body never
  runs. The fallback window is the empty grid, the same on every call.
\<close>

theorem empty_schedule_grid:
  assumes "0 < timeInterval opts" and "concat (map snd sched) = []"
  shows "generateTimeSlots V2 opts sched = Some []"
proof -
  have b: "bounds sched = (1439, 0)" by (simp add: bounds_eq assms(2))
  have "0 \<le> (1439::int) div timeInterval opts"
    using assms(1) by (simp add: pos_imp_zdiv_nonneg_iff)
  then have "\<not> \<lfloor>real_of_int 1439 / real_of_int (timeInterval opts)\<rfloor> * timeInterval opts < 0"
    using assms(1) by (simp add: floor_divide_of_int_eq [of 1439, simplified] mult_less_0_iff)
  then show ?thesis
    by (simp add: b) (subst slotLoop.simps, simp)
qed


lemma minutes_makeSlot: "minutes (makeSlot t) = t"
  by (simp add: makeSlot_def Let_def)

lemma map_minutes_grid: "map minutes (map makeSlot ts) = ts"
  by (induction ts) (simp_all add: minutes_makeSlot)

lemma set_gridTimes:
  assumes "0 < i"
  shows "set (gridTimes g i n) = {t. g \<le> t \<and> t < g + int n * i \<and> i dvd (t - g)}"
proof (intro set_eqI iffI)
  fix t assume "t \<in> set (gridTimes g i n)"
  then obtain k where k: "k < n" "t = g + int k * i" by (auto simp: gridTimes_def)
  have "int k * i < int n * i" using k(1) assms by simp
  then show "t \<in> {t. g \<le> t \<and> t < g + int n * i \<and> i dvd (t - g)}"
    using k(2) assms by simp
next
  fix t assume "t \<in> {t. g \<le> t \<and> t < g + int n * i \<and> i dvd (t - g)}"
  then have t: "g \<le> t" "t < g + int n * i" "i dvd (t - g)" by simp_all
  from t(3) obtain m where m: "t - g = i * m" ..
  have "0 \<le> i * m" using t(1) m by simp
  then have m0: "0 \<le> m" using assms by (simp add: zero_le_mult_iff)
  have "i * m < i * int n" using t(2) m by (simp add: mult.commute)
  then have "m < int n" using assms by simp
  then have "nat m < n" using m0 by simp
  moreover have "t = g + int (nat m) * i" using m m0 by (simp add: mult.commute)
  ultimately show "t \<in> set (gridTimes g i n)"
    unfolding gridTimes_def by (auto intro!: image_eqI [where x = "nat m"])
qed

lemma generateTimeSlots_V2_grid:
  fixes opts sched
  assumes "0 < timeInterval opts"
  defines "i \<equiv> timeInterval opts"
  defines "gs \<equiv> \<lfloor>real_of_int (fst (bounds sched)) / real_of_int i\<rfloor> * i"
  defines "ge \<equiv> \<lceil>real_of_int (snd (bounds sched)) / real_of_int i\<rceil> * i"
  shows "generateTimeSlots V2 opts sched = Some (map makeSlot (gridTimes gs i (nat ((ge - gs) div i))))"
proof -
  have i: "0 < i" using assms(1) by (simp add: i_def)
  have "ge - gs = (\<lceil>real_of_int (snd (bounds sched)) / real_of_int i\<rceil>
                  - \<lfloor>real_of_int (fst (bounds sched)) / real_of_int i\<rfloor>) * i"
    by (simp add: ge_def gs_def algebra_simps)
  then obtain m where m: "ge - gs = m * i" ..
  have "ge - gs + i - 1 = i - 1 + m * i" by (simp add: m)
  then have "(ge - gs + i - 1) div i = (i - 1 + m * i) div i" by (simp only:)
  also have "\<dots> = (i - 1) div i + m" using i by simp
  also have "\<dots> = m" using i by simp
  finally have d: "(ge - gs + i - 1) div i = (ge - gs) div i" using i by (simp add: m)
  have "generateTimeSlots V2 opts sched = slotLoop gs ge i []"
    by (simp add: gs_def ge_def i_def Let_def split_beta)
  then show ?thesis using slotLoop_grid [OF i, of gs ge "[]"] by (simp add: d)
qed

text \<open>
  Claim C6. In version 2 (the data-driven policy), for a positive interval and events that
  lie in the day (some event starts at or before 23:59, the initial value of the search for
  the earliest start, and some event ends at or after 0), the generator returns the slots of
  the times gridStart, gridStart + interval, ... below gridEnd, where gridStart is
  floor(min start / interval) * interval and gridEnd is ceil(max end / interval) * interval,
  minimum and maximum taken over the events of all days: its rows are exactly the times of
  [gridStart, gridEnd) at a multiple of the interval from gridStart.
\<close>

theorem data_driven_grid:
  fixes opts sched
  defines "i \<equiv> timeInterval opts"
  defines "evs \<equiv> concat (map snd sched)"
  defines "gridStart \<equiv> \<lfloor>real_of_int (Min (startMinutes ` set evs)) / real_of_int i\<rfloor> * i"
  defines "gridEnd \<equiv> \<lceil>real_of_int (Max (endMinutes ` set evs)) / real_of_int i\<rceil> * i"
  assumes "0 < timeInterval opts"
    and "\<exists>e \<in> set evs. startMinutes e \<le> 23 * 60 + 59"
    and "\<exists>e \<in> set evs. 0 \<le> endMinutes e"
  shows "\<exists>slots. generateTimeSlots V2 opts sched = Some slots
           \<and> slots = map makeSlot (gridTimes gridStart i (nat ((gridEnd - gridStart) div i)))
           \<and> set (map minutes slots) = {t. gridStart \<le> t \<and> t < gridEnd \<and> i dvd (t - gridStart)}"
proof -
  have i: "0 < i" using assms(5) by (simp add: i_def)
  let ?S = "startMinutes ` set evs" and ?E = "endMinutes ` set evs"
  have fin: "finite ?S" "finite ?E" by simp_all
  have ne: "?S \<noteq> {}" "?E \<noteq> {}" using assms(6) by auto
  from assms(6) obtain e where "e \<in> set evs" "startMinutes e \<le> 1439" by auto
  then have "Min ?S \<le> 1439" using fin(1) by (meson Min_le imageI order_trans)
  then have s: "Min (insert 1439 ?S) = Min ?S" using fin(1) ne(1) by simp
  from assms(7) obtain e' where "e' \<in> set evs" "0 \<le> endMinutes e'" by auto
  then have "0 \<le> Max ?E" using fin(2) by (meson Max_ge imageI order_trans)
  then have e: "Max (insert 0 ?E) = Max ?E" using fin(2) ne(2) by simp
  have b: "fst (bounds sched) = Min ?S" "snd (bounds sched) = Max ?E"
    using s e by (simp_all add: bounds_eq evs_def)
  let ?n = "nat ((gridEnd - gridStart) div i)"
  have g: "generateTimeSlots V2 opts sched = Some (map makeSlot (gridTimes gridStart i ?n))"
    using generateTimeSlots_V2_grid [OF assms(5), of sched]
    unfolding b gridStart_def gridEnd_def i_def .
  have "gridEnd - gridStart = (\<lceil>real_of_int (Max ?E) / real_of_int i\<rceil>
                  - \<lfloor>real_of_int (Min ?S) / real_of_int i\<rfloor>) * i"
    by (simp add: gridEnd_def gridStart_def algebra_simps)
  then obtain m where m: "gridEnd - gridStart = m * i" ..
  have md: "(gridEnd - gridStart) div i = m" using i by (simp add: m)
  have "{t. gridStart \<le> t \<and> t < gridStart + int ?n * i \<and> i dvd (t - gridStart)}
      = {t. gridStart \<le> t \<and> t < gridEnd \<and> i dvd (t - gridStart)}"
  proof (cases "0 \<le> m")
    case True
    then have "gridStart + int ?n * i = gridEnd" using m md by simp
    then show ?thesis by simp
  next
    case False
    then have "m * i < 0" using i by (simp add: mult_less_0_iff)
    then have "gridEnd < gridStart" using m by simp
    moreover have "?n = 0" using False md by simp
    ultimately show ?thesis by auto
  qed
  then have "set (map minutes (map makeSlot (gridTimes gridStart i ?n)))
      = {t. gridStart \<le> t \<and> t < gridEnd \<and> i dvd (t - gridStart)}"
    using set_gridTimes [OF i, of gridStart ?n] by (simp only: map_minutes_grid)
  then show ?thesis using g by (intro exI [of _ "map makeSlot (gridTimes gridStart i ?n)"] conjI) (simp_all only:)
qed

text \<open>
  The scenario of the claim: events between 09:05 and 10:50 only, interval 30. The grid is
  09:00, 09:30, 10:00, 10:30, that is [09:00, 11:00) in rows of 30 minutes.
\<close>

theorem data_driven_grid_witness:
  "generateTimeSlots V2 (defaults\<lparr>timeInterval := 30\<rparr>)
       (scheduleOf calendarDay V2 (defaults\<lparr>timeInterval := 30\<rparr>) gridExample)
     = Some (map makeSlot [540, 570, 600, 630])
   \<and> map label (map makeSlot [540, 570, 600, 630]) = [''09:00'', ''09:30'', ''10:00'', ''10:30'']
   \<and> {t. (540::int) \<le> t \<and> t < 660 \<and> 30 dvd (t - 540)} = {540, 570, 600, 630}"
proof -
  let ?o = "defaults\<lparr>timeInterval := 30\<rparr>"
  let ?s = "scheduleOf calendarDay V2 ?o gridExample"
  have i: "0 < timeInterval ?o" by simp
  have h1: "\<exists>e \<in> set (concat (map snd ?s)). startMinutes e \<le> 23 * 60 + 59" by code_simp
  have h2: "\<exists>e \<in> set (concat (map snd ?s)). 0 \<le> endMinutes e" by code_simp
  have mn: "Min (startMinutes ` set (concat (map snd ?s))) = 545" by code_simp
  have mx: "Max (endMinutes ` set (concat (map snd ?s))) = 650" by code_simp
  have g: "gridTimes 540 30 4 = [540, 570, 600, 630]" by code_simp
  have l: "map label (map makeSlot [540, 570, 600, 630]) = [''09:00'', ''09:30'', ''10:00'', ''10:30'']"
    by code_simp
  from data_driven_grid [OF i h1 h2] 
  have "generateTimeSlots V2 ?o ?s = Some (map makeSlot [540, 570, 600, 630])
     \<and> set (map minutes (map makeSlot [540, 570, 600, 630])) = {t. (540::int) \<le> t \<and> t < 660 \<and> 30 dvd (t - 540)}"
    unfolding mn mx by (simp add: g)
  moreover have "set (map minutes (map makeSlot [540, 570, 600, 630])) = {540, 570, 600, 630}"
    by (simp add: minutes_makeSlot)
  ultimately show ?thesis using l by simp
qed

text \<open>
  Two schedules without events, with the default options: the one built from a single record
  of an excluded day, and the one built from no record.
\<close>

theorem empty_schedule_grid_witness:
  "0 < timeInterval defaults
   \<and> concat (map snd (scheduleOf calendarDay V2 defaults [rawRecord ''15/03/2025'' ''9:00-10:00''])) = []
   \<and> generateTimeSlots V2 defaults (scheduleOf calendarDay V2 defaults [rawRecord ''15/03/2025'' ''9:00-10:00'']) = Some []
   \<and> generateTimeSlots V2 defaults (scheduleOf calendarDay V2 defaults []) = Some []"
proof -
  have i: "0 < timeInterval defaults" by (simp add: defaults_def)
  have e1: "concat (map snd (scheduleOf calendarDay V2 defaults [rawRecord ''15/03/2025'' ''9:00-10:00''])) = []"
    by code_simp
  have e2: "concat (map snd (scheduleOf calendarDay V2 defaults [])) = []" by code_simp
  from empty_schedule_grid [OF i e1] empty_schedule_grid [OF i e2] i e1 show ?thesis by simp
qed

section \<open>Slot index\<close>

lemma grid_findIndex:
  assumes "0 < i"
  shows "findIndex (\<lambda>s. minutes s \<le> t \<and> t < minutes s + i) (map makeSlot (gridTimes g i n))
       = (if g \<le> t \<and> t < g + int n * i then Some (nat ((t - g) div i)) else None)"
proof (induction n arbitrary: g)
  case 0
  then show ?case by (simp add: gridTimes_def)
next
  case (Suc n)
  show ?case
  proof (cases "g \<le> t \<and> t < g + i")
    case True
    then have "(t - g) div i = 0" by (simp add: div_pos_pos_trivial)
    moreover have "t < g + int (Suc n) * i"
    proof -
      have "0 \<le> int n * i" using assms by simp
      moreover have "int (Suc n) * i = int n * i + i" by (simp add: algebra_simps)
      ultimately show ?thesis using True by linarith
    qed
    ultimately show ?thesis using True by (simp add: gridTimes_Suc minutes_makeSlot)
  next
    case False
    show ?thesis
    proof (cases "g + i \<le> t \<and> t < g + i + int n * i")
      case True
      have "(t - g) div i = (t - (g + i)) div i + 1"
      proof -
        have "t - g = (t - (g + i)) + i" by simp
        then show ?thesis using assms by (simp only: div_add_self2) 
      qed
      moreover have "0 \<le> (t - (g + i)) div i" using True assms by (simp add: pos_imp_zdiv_nonneg_iff)
      ultimately have "nat ((t - g) div i) = Suc (nat ((t - (g + i)) div i))" by simp
      moreover have "g \<le> t \<and> t < g + int (Suc n) * i" using True assms by (simp add: algebra_simps)
      ultimately show ?thesis using False True Suc [of "g + i"]
        by (simp add: gridTimes_Suc minutes_makeSlot)
    next
      case F2: False
      with False have "\<not> (g \<le> t \<and> t < g + int (Suc n) * i)"
        by (auto simp: algebra_simps)
      then show ?thesis using False F2 Suc [of "g + i"]
        by (simp add: gridTimes_Suc minutes_makeSlot)
    qed
  qed
qed


lemma div_window:
  fixes a i k :: int
  assumes "0 < i"
  shows "(k * i \<le> a \<and> a < k * i + i) \<longleftrightarrow> a div i = k"
proof
  assume w: "k * i \<le> a \<and> a < k * i + i"
  have "a div i = ((a - k * i) + k * i) div i" by simp
  also have "\<dots> = k + (a - k * i) div i" by (rule div_mult_self1) (use assms in simp)
  also have "(a - k * i) div i = 0" using w by (simp add: div_pos_pos_trivial)
  finally show "a div i = k" by simp
next
  assume d: "a div i = k"
  have e: "i * (a div i) + a mod i = a" by simp
  have r: "0 \<le> a mod i" "a mod i < i" using assms by simp_all
  have "k * i = i * (a div i)" using d by simp
  then show "k * i \<le> a \<and> a < k * i + i" using e r by linarith
qed

lemma grid_nth:
  "k < n \<Longrightarrow> minutes (map makeSlot (gridTimes g i n) ! k) = g + int k * i"
  by (simp add: gridTimes_def minutes_makeSlot)

lemma grid_hd_last:
  assumes "0 < n"
  shows "minutes (hd (map makeSlot (gridTimes g i n))) = g"
    and "minutes (last (map makeSlot (gridTimes g i n))) + i = g + int n * i"
proof -
  let ?sl = "map makeSlot (gridTimes g i n)"
  have len: "length ?sl = n" by (simp add: gridTimes_def)
  have ne: "?sl \<noteq> []" using assms len by auto
  have "hd ?sl = ?sl ! 0" using ne by (simp add: hd_conv_nth)
  then show "minutes (hd ?sl) = g" using grid_nth [of 0 n g i] assms by simp
  have "last ?sl = ?sl ! (n - 1)" using ne len by (simp add: last_conv_nth)
  then have "minutes (last ?sl) = g + int (n - 1) * i" using grid_nth [of "n - 1" n g i] assms by simp
  also have "int (n - 1) = int n - 1" using assms by simp
  finally show "minutes (last ?sl) + i = g + int n * i" by (simp add: algebra_simps)
qed

lemma getTimeSlotIndex_Cons:
  "getTimeSlotIndex opts (first # rest) t
     = Inr (max 0 (min ((t - minutes first) div timeInterval opts) (int (length rest))))"
  by (simp add: getTimeSlotIndex_def Let_def floor_divide_of_int_eq del: of_int_diff)

lemma grid_slotIndex:
  assumes i: "0 < timeInterval opts" and n: "0 < n"
    and sl: "slots = map makeSlot (gridTimes g (timeInterval opts) n)"
  shows "getTimeSlotIndex opts slots t = Inr (spec_slotIndex (timeInterval opts) slots t)"
    and "0 \<le> spec_slotIndex (timeInterval opts) slots t"
    and "spec_slotIndex (timeInterval opts) slots t \<le> int (length slots) - 1"
    and "t < g \<Longrightarrow> spec_slotIndex (timeInterval opts) slots t = 0"
    and "g + int n * timeInterval opts \<le> t \<Longrightarrow> spec_slotIndex (timeInterval opts) slots t = int (length slots) - 1"
    and "g \<le> t \<Longrightarrow> t < g + int n * timeInterval opts \<Longrightarrow>
           spec_slotIndex (timeInterval opts) slots t = (t - g) div timeInterval opts"
proof -
  let ?i = "timeInterval opts"
  let ?q = "(t - g) div ?i"
  obtain m where m: "n = Suc m" using n by (cases n) auto
  have len: "length slots = n" by (simp add: sl gridTimes_def)
  have cons: "slots = makeSlot g # map makeSlot (gridTimes (g + ?i) ?i m)"
    by (simp add: sl m gridTimes_Suc)
  have code: "getTimeSlotIndex opts slots t = Inr (max 0 (min ?q (int n - 1)))"
    using len unfolding cons getTimeSlotIndex_Cons by (simp add: minutes_makeSlot)
  have fi: "findIndex (\<lambda>s. minutes s \<le> t \<and> t < minutes s + ?i) slots
       = (if g \<le> t \<and> t < g + int n * ?i then Some (nat ?q) else None)"
    unfolding sl by (rule grid_findIndex [OF i])
  have spec: "spec_slotIndex ?i slots t
       = (if g \<le> t \<and> t < g + int n * ?i then int (nat ?q) else if t < g then 0 else int n - 1)"
    using len by (simp add: spec_slotIndex_def fi) (simp add: cons minutes_makeSlot)
  have W: "?q * ?i \<le> t - g" "t - g < ?q * ?i + ?i"
    using div_window [OF i, of ?q "t - g"] by simp_all
  have q0: "0 \<le> ?q" if "g \<le> t" using that i by (simp add: pos_imp_zdiv_nonneg_iff)
  have qneg: "?q < 0" if "t < g" using that i by (simp add: div_neg_pos_less0)
  have qlt: "?q < int n" if "t < g + int n * ?i"
  proof (rule ccontr)
    assume "\<not> ?q < int n"
    then have "int n * ?i \<le> ?q * ?i" using i by (simp add: mult_right_mono)
    with W(1) that show False by linarith
  qed
  have qge: "int n \<le> ?q" if "g + int n * ?i \<le> t"
  proof (rule ccontr)
    assume "\<not> int n \<le> ?q"
    then have "?q + 1 \<le> int n" by simp
    then have "(?q + 1) * ?i \<le> int n * ?i" using i by (intro mult_right_mono) simp_all
    then have "?q * ?i + ?i \<le> int n * ?i" by (simp add: algebra_simps)
    with W(2) that show False by linarith
  qed
  show "getTimeSlotIndex opts slots t = Inr (spec_slotIndex ?i slots t)"
    unfolding code spec using q0 qneg qlt qge n by (auto simp: max_def min_def)
  show "0 \<le> spec_slotIndex ?i slots t" unfolding spec using n by simp
  show "spec_slotIndex ?i slots t \<le> int (length slots) - 1"
    unfolding spec len using q0 qlt n by auto
  show "t < g \<Longrightarrow> spec_slotIndex ?i slots t = 0" unfolding spec by simp
  have ni: "0 \<le> int n * ?i" using i by simp
  show "g + int n * ?i \<le> t \<Longrightarrow> spec_slotIndex ?i slots t = int (length slots) - 1"
    unfolding spec len using ni by auto
  show "g \<le> t \<Longrightarrow> t < g + int n * ?i \<Longrightarrow> spec_slotIndex ?i slots t = ?q"
    unfolding spec using q0 by simp
qed

lemma generateTimeSlots_V1_grid:
  assumes "0 < timeInterval opts"
  shows "generateTimeSlots V1 opts sched
       = Some (map makeSlot (gridTimes 480 (timeInterval opts) (nat ((600 + timeInterval opts - 1) div timeInterval opts))))"
    and "0 < nat ((600 + timeInterval opts - 1) div timeInterval opts)"
proof -
  show "generateTimeSlots V1 opts sched
       = Some (map makeSlot (gridTimes 480 (timeInterval opts) (nat ((600 + timeInterval opts - 1) div timeInterval opts))))"
    using slotLoop_grid [OF assms, of 480 1080 "[]"] by simp
  have "timeInterval opts div timeInterval opts \<le> (600 + timeInterval opts - 1) div timeInterval opts"
    using assms by (intro zdiv_mono1) simp_all
  then have "1 \<le> (600 + timeInterval opts - 1) div timeInterval opts" using assms by simp
  then show "0 < nat ((600 + timeInterval opts - 1) div timeInterval opts)" by simp
qed

lemma bounds_event:
  assumes "ev \<in> set (concat (map snd sched))"
  shows "fst (bounds sched) \<le> startMinutes ev" and "endMinutes ev \<le> snd (bounds sched)"
proof -
  have "startMinutes ev \<in> insert 1439 (startMinutes ` set (concat (map snd sched)))"
    using assms by blast
  then show "fst (bounds sched) \<le> startMinutes ev"
    unfolding bounds_eq fst_conv by (intro Min_le) simp_all
  have "endMinutes ev \<in> insert 0 (endMinutes ` set (concat (map snd sched)))"
    using assms by blast
  then show "endMinutes ev \<le> snd (bounds sched)"
    unfolding bounds_eq snd_conv by (intro Max_ge) simp_all
qed

lemma grid_window:
  assumes i: "0 < i" and k: "k < n"
  shows "(minutes (map makeSlot (gridTimes g i n) ! k) \<le> t
          \<and> t < minutes (map makeSlot (gridTimes g i n) ! k) + i) \<longleftrightarrow> (t - g) div i = int k"
proof -
  have "(int k * i \<le> t - g \<and> t - g < int k * i + i) \<longleftrightarrow> (t - g) div i = int k"
    by (rule div_window [OF i])
  then show ?thesis unfolding grid_nth [OF k] by (simp add: algebra_simps)
qed

lemma grid_index_facts:
  assumes i: "0 < timeInterval opts"
  shows "(generateTimeSlots V1 opts sched = Some slots \<longrightarrow>
            slots \<noteq> []
          \<and> getTimeSlotIndex opts slots t = Inr (spec_slotIndex (timeInterval opts) slots t)
          \<and> 0 \<le> spec_slotIndex (timeInterval opts) slots t
          \<and> spec_slotIndex (timeInterval opts) slots t \<le> int (length slots) - 1
          \<and> (t < minutes (hd slots) \<longrightarrow> getTimeSlotIndex opts slots t = Inr 0)
          \<and> (minutes (last slots) + timeInterval opts \<le> t \<longrightarrow>
                getTimeSlotIndex opts slots t = Inr (int (length slots) - 1)))
       \<and> (generateTimeSlots V2 opts sched = Some slots
            \<and> ev \<in> set (concat (map snd sched)) \<and> startMinutes ev < endMinutes ev \<longrightarrow>
            slots \<noteq> []
          \<and> 0 \<le> spec_slotIndex (timeInterval opts) slots (startMinutes ev)
          \<and> spec_slotIndex (timeInterval opts) slots (startMinutes ev) \<le> int (length slots) - 1
          \<and> (\<forall>k < length slots.
                startsHere V2 opts (slots ! k) k ev
                \<longleftrightarrow> int k = spec_slotIndex (timeInterval opts) slots (startMinutes ev)))"
proof (intro conjI impI)
  let ?i = "timeInterval opts"
  assume g: "generateTimeSlots V1 opts sched = Some slots"
  let ?n = "nat ((600 + ?i - 1) div ?i)"
  have sl: "slots = map makeSlot (gridTimes 480 ?i ?n)" and n: "0 < ?n"
    using generateTimeSlots_V1_grid(1) [OF i, of sched] generateTimeSlots_V1_grid(2) [OF i] g
    by simp_all
  have len: "length slots = ?n" by (simp add: sl gridTimes_def)
  note G = grid_slotIndex [OF i n sl]
  show "slots \<noteq> []" using len n by auto
  show "getTimeSlotIndex opts slots t = Inr (spec_slotIndex ?i slots t)" by (rule G(1))
  show "0 \<le> spec_slotIndex ?i slots t" by (rule G(2))
  show "spec_slotIndex ?i slots t \<le> int (length slots) - 1" by (rule G(3))
  show "getTimeSlotIndex opts slots t = Inr 0" if "t < minutes (hd slots)"
    using that G(1) [of t] G(4) [of t] grid_hd_last(1) [OF n, of 480 ?i] unfolding sl by simp
  show "getTimeSlotIndex opts slots t = Inr (int (length slots) - 1)"
    if "minutes (last slots) + ?i \<le> t"
    using that G(1) [of t] G(5) [of t] grid_hd_last(2) [OF n, of 480 ?i] unfolding sl by simp
next
  let ?i = "timeInterval opts"
  let ?t = "startMinutes ev"
  assume a: "generateTimeSlots V2 opts sched = Some slots
            \<and> ev \<in> set (concat (map snd sched)) \<and> startMinutes ev < endMinutes ev"
  define gs where "gs = \<lfloor>real_of_int (fst (bounds sched)) / real_of_int ?i\<rfloor> * ?i"
  define ge where "ge = \<lceil>real_of_int (snd (bounds sched)) / real_of_int ?i\<rceil> * ?i"
  define n where "n = nat ((ge - gs) div ?i)"
  have sl: "slots = map makeSlot (gridTimes gs ?i n)"
    using generateTimeSlots_V2_grid [OF i, of sched] a unfolding gs_def ge_def n_def by simp
  have len: "length slots = n" by (simp add: sl gridTimes_def)
  have lo: "gs \<le> ?t"
    using floor_grid(1) [OF i, of "fst (bounds sched)"] bounds_event(1) [of ev sched] a
    unfolding gs_def by linarith
  have "snd (bounds sched) \<le> ge"
    using ceiling_least [OF i, of "snd (bounds sched)"] unfolding ge_def by simp
  then have hi: "?t < ge" using bounds_event(2) [of ev sched] a by linarith
  have "ge - gs = (\<lceil>real_of_int (snd (bounds sched)) / real_of_int ?i\<rceil>
                  - \<lfloor>real_of_int (fst (bounds sched)) / real_of_int ?i\<rfloor>) * ?i"
    by (simp add: ge_def gs_def algebra_simps)
  then obtain m where m: "ge - gs = m * ?i" ..
  have md: "(ge - gs) div ?i = m" using i by (simp add: m)
  have "0 < m * ?i" using lo hi m by linarith
  then have m0: "0 < m" using i by (simp add: zero_less_mult_iff)
  then have n: "0 < n" unfolding n_def md by simp
  have end_eq: "gs + int n * ?i = ge" using m m0 unfolding n_def md by simp
  note G = grid_slotIndex [OF i n sl]
  have sp: "spec_slotIndex ?i slots ?t = (?t - gs) div ?i"
    using G(6) [of ?t] lo hi end_eq by simp
  show "slots \<noteq> []" using len n by auto
  show "0 \<le> spec_slotIndex ?i slots ?t" by (rule G(2))
  show "spec_slotIndex ?i slots ?t \<le> int (length slots) - 1" by (rule G(3))
  show "\<forall>k < length slots. startsHere V2 opts (slots ! k) k ev
          \<longleftrightarrow> int k = spec_slotIndex ?i slots ?t"
  proof (intro allI impI)
    fix k assume "k < length slots"
    then have k: "k < n" using len by simp
    show "startsHere V2 opts (slots ! k) k ev \<longleftrightarrow> int k = spec_slotIndex ?i slots ?t"
      using grid_window [OF i k, of gs ?t] unfolding sl [symmetric] sp by auto
  qed
qed


section \<open>Layout\<close>

lemma spanRows_iff: "r \<in> spanRows s rs len \<longleftrightarrow> s < r \<and> r < len \<and> int r < int s + rs"
  by (auto simp: spanRows_def)

lemma markOccupied_eq:
  "markOccupied d s rs len i occ
     = occ \<union> {(d', r). d' = d \<and> s + i \<le> r \<and> r < len \<and> int r < int s + rs}"
proof (induction d s rs len i occ rule: markOccupied.induct)
  case (1 day slotIdx rowSpan len i occ)
  show ?case
  proof (cases "int i < rowSpan \<and> slotIdx + i < len")
    case True
    have step: "markOccupied day slotIdx rowSpan len i occ
        = markOccupied day slotIdx rowSpan len (Suc i) (insert (day, slotIdx + i) occ)"
      using True by (subst markOccupied.simps) (simp only: if_True simp_thms)
    have "{(d', r). d' = day \<and> slotIdx + i \<le> r \<and> r < len \<and> int r < int slotIdx + rowSpan}
        = insert (day, slotIdx + i)
            {(d', r). d' = day \<and> slotIdx + Suc i \<le> r \<and> r < len \<and> int r < int slotIdx + rowSpan}"
      using True by (auto simp: Suc_le_eq le_less)
    then show ?thesis unfolding step 1 [OF True] by simp
  next
    case False
    have stop: "markOccupied day slotIdx rowSpan len i occ = occ"
      using False by (subst markOccupied.simps) (simp only: if_False simp_thms)
    have E: "{(d', r). d' = day \<and> slotIdx + i \<le> r \<and> r < len \<and> int r < int slotIdx + rowSpan} = {}"
      using False by auto
    show ?thesis unfolding stop E by simp
  qed
qed

lemma markOccupied_span: "markOccupied d s rs len (Suc 0) occ = occ \<union> Pair d ` spanRows s rs len"
  unfolding markOccupied_eq by (auto simp: spanRows_iff Suc_le_eq)

lemma placeEvent_eq:
  "placeEvent ver opts len d s ev st
     = (fst st \<union> Pair d ` spanRows s (getRowSpan ver opts (duration ev)) len,
        snd st @ [(d, EventCell ev (getRowSpan ver opts (duration ev)))])"
proof -
  have "spanRows s (getRowSpan ver opts (duration ev)) len = {}"
    if "\<not> getRowSpan ver opts (duration ev) > 1"
    using that by (auto simp: spanRows_iff)
  then show ?thesis by (auto simp: placeEvent_def Let_def markOccupied_span)
qed

lemma fold_placeEvent:
  "fold (placeEvent ver opts len d s) evs st
     = (fst st \<union> (\<Union>ev \<in> set evs. Pair d ` spanRows s (getRowSpan ver opts (duration ev)) len),
        snd st @ map (\<lambda>ev. (d, EventCell ev (getRowSpan ver opts (duration ev)))) evs)"
proof (induction evs arbitrary: st)
  case Nil
  then show ?case by simp
next
  case (Cons e evs)
  define st1 where "st1 = placeEvent ver opts len d s e st"
  have a: "fold (placeEvent ver opts len d s) (e # evs) st
      = fold (placeEvent ver opts len d s) evs st1" by (simp add: st1_def)
  have c: "fst st1 = fst st \<union> Pair d ` spanRows s (getRowSpan ver opts (duration e)) len"
    "snd st1 = snd st @ [(d, EventCell e (getRowSpan ver opts (duration e)))]"
    unfolding st1_def placeEvent_eq by simp_all
  show ?case unfolding a Cons [of st1] c by auto
qed


lemma renderDay_eq:
  "renderDay ver opts len sched slot s d st
     = (if (d, s) \<in> fst st then st
        else (fst st \<union> dayMarks ver opts len sched slot s d,
              snd st @ dayCells ver opts sched slot s d))"
  by (simp add: renderDay_def fold_placeEvent dayMarks_def dayCells_def)

lemma dayMarks_below:
  "(d', r) \<in> dayMarks ver opts len sched slot s d \<Longrightarrow> d' = d \<and> s < r \<and> r < len"
  by (auto simp: dayMarks_def spanRows_iff)

lemma renderDay_same_row:
  "(d', s) \<in> fst (renderDay ver opts len sched slot s d st) \<longleftrightarrow> (d', s) \<in> fst st"
  using dayMarks_below [of d' s ver opts len sched slot s d] by (auto simp: renderDay_eq)


lemma fold_renderDay:
  "fold (renderDay ver opts len sched slot s) ds st
     = (fst st \<union> (\<Union>d \<in> {d \<in> set ds. (d, s) \<notin> fst st}. dayMarks ver opts len sched slot s d),
        snd st @ concat (map (\<lambda>d. if (d, s) \<in> fst st then [] else dayCells ver opts sched slot s d) ds))"
proof (induction ds arbitrary: st)
  case Nil
  then show ?case by simp
next
  case (Cons d ds)
  define st1 where "st1 = renderDay ver opts len sched slot s d st"
  have same: "(d', s) \<in> fst st1 \<longleftrightarrow> (d', s) \<in> fst st" for d'
    unfolding st1_def by (rule renderDay_same_row)
  have a: "fold (renderDay ver opts len sched slot s) (d # ds) st
      = fold (renderDay ver opts len sched slot s) ds st1" by (simp add: st1_def)
  have f: "fst st1 = fst st \<union> (if (d, s) \<in> fst st then {} else dayMarks ver opts len sched slot s d)"
    and c: "snd st1 = snd st @ (if (d, s) \<in> fst st then [] else dayCells ver opts sched slot s d)"
    unfolding st1_def renderDay_eq by simp_all
  have ih: "fold (renderDay ver opts len sched slot s) ds st1
      = (fst st1 \<union> (\<Union>d \<in> {d \<in> set ds. (d, s) \<notin> fst st}. dayMarks ver opts len sched slot s d),
         snd st1 @ concat (map (\<lambda>d. if (d, s) \<in> fst st then [] else dayCells ver opts sched slot s d) ds))"
    unfolding Cons [of st1] same ..
  show ?case unfolding a ih f c by auto
qed

lemma renderRow_eq:
  "renderRow ver opts len sched slot s st
     = (fst st \<union> (\<Union>d \<in> {d \<in> fst ` set sched. (d, s) \<notin> fst st}. dayMarks ver opts len sched slot s d),
        snd st @ [concat (map (\<lambda>d. if (d, s) \<in> fst st then [] else dayCells ver opts sched slot s d)
                              (map fst sched))])"
  by (simp add: renderRow_def Let_def fold_renderDay)


lemma renderRow_marks_cells:
  "renderRow ver opts len sched slot s st
     = (fst st \<union> rowMarks ver opts len sched (fst st) slot s,
        snd st @ [rowCells ver opts sched (fst st) slot s])"
  by (simp add: renderRow_eq rowMarks_def rowCells_def)

lemma rowMarks_below: "(d, r) \<in> rowMarks ver opts len sched occ slot s \<Longrightarrow> s < r \<and> r < len"
  unfolding rowMarks_def using dayMarks_below by blast

lemma row_cong:
  assumes "\<And>d. (d, s) \<in> occ \<longleftrightarrow> (d, s) \<in> occ'"
  shows "rowMarks ver opts len sched occ slot s = rowMarks ver opts len sched occ' slot s"
    and "rowCells ver opts sched occ slot s = rowCells ver opts sched occ' slot s"
  unfolding rowMarks_def rowCells_def assms by (rule refl)+

lemma renderRows_inv:
  "length (snd (renderRows ver opts len sched idx sl st)) = length (snd st) + length sl
   \<and> (\<forall>j < length (snd st). snd (renderRows ver opts len sched idx sl st) ! j = snd st ! j)
   \<and> fst st \<subseteq> fst (renderRows ver opts len sched idx sl st)
   \<and> (\<forall>d r. (d, r) \<in> fst (renderRows ver opts len sched idx sl st) \<longrightarrow> (d, r) \<notin> fst st \<longrightarrow> idx < r \<and> r < len)
   \<and> (\<forall>j < length sl. snd (renderRows ver opts len sched idx sl st) ! (length (snd st) + j)
         = rowCells ver opts sched (fst (renderRows ver opts len sched idx sl st)) (sl ! j) (idx + j))
   \<and> (\<forall>x. x \<in> fst (renderRows ver opts len sched idx sl st) \<longleftrightarrow>
         x \<in> fst st \<or> (\<exists>j < length sl. x \<in> rowMarks ver opts len sched
                               (fst (renderRows ver opts len sched idx sl st)) (sl ! j) (idx + j)))"
proof (induction sl arbitrary: idx st)
  case Nil
  then show ?case by simp
next
  case (Cons slot rest)
  define st1 where "st1 = renderRow ver opts len sched slot idx st"
  define st' where "st' = renderRows ver opts len sched (Suc idx) rest st1"
  have R: "renderRows ver opts len sched idx (slot # rest) st = st'"
    by (simp add: st1_def st'_def)
  have f1: "fst st1 = fst st \<union> rowMarks ver opts len sched (fst st) slot idx"
    and c1: "snd st1 = snd st @ [rowCells ver opts sched (fst st) slot idx]"
    unfolding st1_def renderRow_marks_cells by simp_all
  have IH: "length (snd st') = length (snd st1) + length rest
   \<and> (\<forall>j < length (snd st1). snd st' ! j = snd st1 ! j)
   \<and> fst st1 \<subseteq> fst st'
   \<and> (\<forall>d r. (d, r) \<in> fst st' \<longrightarrow> (d, r) \<notin> fst st1 \<longrightarrow> Suc idx < r \<and> r < len)
   \<and> (\<forall>j < length rest. snd st' ! (length (snd st1) + j)
         = rowCells ver opts sched (fst st') (rest ! j) (Suc idx + j))
   \<and> (\<forall>x. x \<in> fst st' \<longleftrightarrow>
         x \<in> fst st1 \<or> (\<exists>j < length rest. x \<in> rowMarks ver opts len sched (fst st') (rest ! j) (Suc idx + j)))"
    using Cons [of "Suc idx" st1] unfolding st'_def .
  note i1 = IH [THEN conjunct1]
  note i2 = IH [THEN conjunct2, THEN conjunct1]
  note i3 = IH [THEN conjunct2, THEN conjunct2, THEN conjunct1]
  note i4 = IH [THEN conjunct2, THEN conjunct2, THEN conjunct2, THEN conjunct1]
  note i5 = IH [THEN conjunct2, THEN conjunct2, THEN conjunct2, THEN conjunct2, THEN conjunct1]
  note i6 = IH [THEN conjunct2, THEN conjunct2, THEN conjunct2, THEN conjunct2, THEN conjunct2]
  have len1: "length (snd st1) = Suc (length (snd st))" by (simp add: c1)
  have K: "(d, idx) \<in> fst st' \<longleftrightarrow> (d, idx) \<in> fst st" for d
  proof
    assume in': "(d, idx) \<in> fst st'"
    show "(d, idx) \<in> fst st"
    proof (rule ccontr)
      assume n: "(d, idx) \<notin> fst st"
      show False
      proof (cases "(d, idx) \<in> fst st1")
        case True
        then have "(d, idx) \<in> rowMarks ver opts len sched (fst st) slot idx" using n f1 by simp
        then have "idx < idx \<and> idx < len" by (rule rowMarks_below)
        then show False by simp
      next
        case False
        then have "Suc idx < idx \<and> idx < len" using i4 in' by blast
        then show False by simp
      qed
    qed
  next
    assume "(d, idx) \<in> fst st"
    then show "(d, idx) \<in> fst st'" using f1 i3 by blast
  qed
  have m: "rowMarks ver opts len sched (fst st) slot idx = rowMarks ver opts len sched (fst st') slot idx"
    and c: "rowCells ver opts sched (fst st) slot idx = rowCells ver opts sched (fst st') slot idx"
    using row_cong [of idx "fst st" "fst st'"] K by blast+
  have P1: "length (snd st') = length (snd st) + length (slot # rest)"
    using i1 len1 by simp
  have P2: "\<forall>j < length (snd st). snd st' ! j = snd st ! j"
  proof (intro allI impI)
    fix j assume j: "j < length (snd st)"
    then have "snd st' ! j = snd st1 ! j" using i2 len1 by simp
    also have "\<dots> = snd st ! j" using j by (simp add: c1 nth_append)
    finally show "snd st' ! j = snd st ! j" .
  qed
  have P3: "fst st \<subseteq> fst st'" using f1 i3 by blast
  have P4: "\<forall>d r. (d, r) \<in> fst st' \<longrightarrow> (d, r) \<notin> fst st \<longrightarrow> idx < r \<and> r < len"
  proof (intro allI impI)
    fix d r assume a: "(d, r) \<in> fst st'" "(d, r) \<notin> fst st"
    show "idx < r \<and> r < len"
    proof (cases "(d, r) \<in> fst st1")
      case True
      then have "(d, r) \<in> rowMarks ver opts len sched (fst st) slot idx" using a(2) f1 by simp
      then show ?thesis by (rule rowMarks_below)
    next
      case False
      then have "Suc idx < r \<and> r < len" using i4 a(1) by blast
      then show ?thesis by simp
    qed
  qed
  have P5: "\<forall>j < length (slot # rest). snd st' ! (length (snd st) + j)
         = rowCells ver opts sched (fst st') ((slot # rest) ! j) (idx + j)"
  proof (intro allI impI)
    fix j assume j: "j < length (slot # rest)"
    show "snd st' ! (length (snd st) + j) = rowCells ver opts sched (fst st') ((slot # rest) ! j) (idx + j)"
    proof (cases j)
      case 0
      have "snd st' ! length (snd st) = snd st1 ! length (snd st)" using i2 len1 by simp
      also have "\<dots> = rowCells ver opts sched (fst st) slot idx" by (simp add: c1)
      finally show ?thesis using 0 c by simp
    next
      case (Suc j')
      then have "j' < length rest" using j by simp
      then have "snd st' ! (length (snd st1) + j') = rowCells ver opts sched (fst st') (rest ! j') (Suc idx + j')"
        using i5 by blast
      then show ?thesis using Suc len1 by simp
    qed
  qed
  have P6: "\<forall>x. x \<in> fst st' \<longleftrightarrow>
         x \<in> fst st \<or> (\<exists>j < length (slot # rest). x \<in> rowMarks ver opts len sched (fst st') ((slot # rest) ! j) (idx + j))"
  proof (intro allI)
    fix x
    have "x \<in> fst st' \<longleftrightarrow> x \<in> fst st1
        \<or> (\<exists>j < length rest. x \<in> rowMarks ver opts len sched (fst st') (rest ! j) (Suc idx + j))"
      using i6 by blast
    also have "x \<in> fst st1 \<longleftrightarrow> x \<in> fst st \<or> x \<in> rowMarks ver opts len sched (fst st') slot idx"
      unfolding f1 m by simp
    finally show "x \<in> fst st' \<longleftrightarrow>
         x \<in> fst st \<or> (\<exists>j < length (slot # rest). x \<in> rowMarks ver opts len sched (fst st') ((slot # rest) ! j) (idx + j))"
      by (simp add: Ex_less_Suc2 disj_assoc)
  qed
  show ?case unfolding R using P1 P2 P3 P4 P5 P6 by blast
qed

lemma dayCells_event:
  "(d, EventCell ev rs) \<in> set (dayCells ver opts sched slot s d') \<longleftrightarrow>
     d = d' \<and> ev \<in> set (eventsStartingHere ver opts sched slot s d')
     \<and> rs = getRowSpan ver opts (duration ev)"
  by (auto simp: dayCells_def)

lemma dayCells_day: "(d, c) \<in> set (dayCells ver opts sched slot s d') \<Longrightarrow> d = d'"
  by (auto simp: dayCells_def split: if_splits)

lemma rowCells_iff:
  "(d, c) \<in> set (rowCells ver opts sched occ slot s) \<longleftrightarrow>
     d \<in> fst ` set sched \<and> (d, s) \<notin> occ \<and> (d, c) \<in> set (dayCells ver opts sched slot s d)"
  using dayCells_day [of d c ver opts sched slot s] by (auto simp: rowCells_def)

lemma rowMarks_iff:
  "(d, r) \<in> rowMarks ver opts len sched occ slot s \<longleftrightarrow>
     d \<in> fst ` set sched \<and> (d, s) \<notin> occ
     \<and> (\<exists>ev \<in> set (eventsStartingHere ver opts sched slot s d).
           r \<in> spanRows s (getRowSpan ver opts (duration ev)) len)"
  by (auto simp: rowMarks_def dayMarks_def)

lemma render_layout:
  assumes "render ver True opts slots sched = Inr (Some lay)"
  shows "length (rows lay) = length slots"
    and "\<And>j. j < length slots \<Longrightarrow>
           rows lay ! j = rowCells ver opts (sorted_data lay) (cellOccupied lay) (slots ! j) j"
    and "\<And>x. x \<in> cellOccupied lay \<longleftrightarrow>
           (\<exists>j < length slots. x \<in> rowMarks ver opts (length slots) (sorted_data lay)
                                      (cellOccupied lay) (slots ! j) j)"
    and "assignSlots ver opts slots (sortDays sched) = Inr (sorted_data lay)"
proof -
  from assms obtain sched' where a: "assignSlots ver opts slots (sortDays sched) = Inr sched'"
    by (auto simp: render_def split: sum.splits)
  define st' where "st' = renderRows ver opts (length slots) sched' 0 slots ({}, [])"
  have lay: "lay = \<lparr> sorted_data = sched', cellOccupied = fst st', rows = snd st' \<rparr>"
    using assms a by (simp add: render_def Let_def st'_def)
  have s: "sorted_data lay = sched'" and o: "cellOccupied lay = fst st'" and r: "rows lay = snd st'"
    by (simp_all add: lay)
  note I = renderRows_inv [of ver opts "length slots" sched' 0 slots "({}, [])", folded st'_def]
  show "assignSlots ver opts slots (sortDays sched) = Inr (sorted_data lay)" using a s by simp
  show "length (rows lay) = length slots" using I [THEN conjunct1] by (simp add: r)
  show "rows lay ! j = rowCells ver opts (sorted_data lay) (cellOccupied lay) (slots ! j) j"
    if "j < length slots" for j
    using I [THEN conjunct2, THEN conjunct2, THEN conjunct2, THEN conjunct2, THEN conjunct1] that
    by (simp add: s o r)
  show "x \<in> cellOccupied lay \<longleftrightarrow>
           (\<exists>j < length slots. x \<in> rowMarks ver opts (length slots) (sorted_data lay)
                                      (cellOccupied lay) (slots ! j) j)" for x
    using I [THEN conjunct2, THEN conjunct2, THEN conjunct2, THEN conjunct2, THEN conjunct2,
             THEN spec, of x]
    by (simp add: s o r)
qed

lemma render_event_cell:
  assumes "render ver True opts slots sched = Inr (Some lay)" and "s < length slots"
  shows "(d, EventCell ev rs) \<in> set (rows lay ! s) \<longleftrightarrow>
           d \<in> fst ` set (sorted_data lay) \<and> (d, s) \<notin> cellOccupied lay
           \<and> ev \<in> set (eventsStartingHere ver opts (sorted_data lay) (slots ! s) s d)
           \<and> rs = getRowSpan ver opts (duration ev)"
  unfolding render_layout(2) [OF assms] rowCells_iff dayCells_event by blast

lemma render_occupied:
  assumes "render ver True opts slots sched = Inr (Some lay)"
  shows "(d, r) \<in> cellOccupied lay \<longleftrightarrow>
           (\<exists>s ev rs. s < length slots \<and> (d, EventCell ev rs) \<in> set (rows lay ! s)
                       \<and> r \<in> spanRows s rs (length slots))"
proof
  assume "(d, r) \<in> cellOccupied lay"
  then obtain s where s: "s < length slots"
    and m: "(d, r) \<in> rowMarks ver opts (length slots) (sorted_data lay) (cellOccupied lay) (slots ! s) s"
    unfolding render_layout(3) [OF assms] by blast
  from m obtain ev where k: "d \<in> fst ` set (sorted_data lay)" "(d, s) \<notin> cellOccupied lay"
    and ev: "ev \<in> set (eventsStartingHere ver opts (sorted_data lay) (slots ! s) s d)"
    and sp: "r \<in> spanRows s (getRowSpan ver opts (duration ev)) (length slots)"
    unfolding rowMarks_iff by blast
  have "(d, EventCell ev (getRowSpan ver opts (duration ev))) \<in> set (rows lay ! s)"
    unfolding render_event_cell [OF assms s] using k ev by simp
  with s sp show "\<exists>s ev rs. s < length slots \<and> (d, EventCell ev rs) \<in> set (rows lay ! s)
                       \<and> r \<in> spanRows s rs (length slots)" by blast
next
  assume "\<exists>s ev rs. s < length slots \<and> (d, EventCell ev rs) \<in> set (rows lay ! s)
                       \<and> r \<in> spanRows s rs (length slots)"
  then obtain s ev rs where s: "s < length slots"
    and c: "(d, EventCell ev rs) \<in> set (rows lay ! s)"
    and sp: "r \<in> spanRows s rs (length slots)" by blast
  from c have k: "d \<in> fst ` set (sorted_data lay)" "(d, s) \<notin> cellOccupied lay"
    and ev: "ev \<in> set (eventsStartingHere ver opts (sorted_data lay) (slots ! s) s d)"
    and rs: "rs = getRowSpan ver opts (duration ev)"
    unfolding render_event_cell [OF assms s] by simp_all
  have "(d, r) \<in> rowMarks ver opts (length slots) (sorted_data lay) (cellOccupied lay) (slots ! s) s"
    unfolding rowMarks_iff using k ev sp rs by blast
  then show "(d, r) \<in> cellOccupied lay"
    unfolding render_layout(3) [OF assms, of "(d, r)"] using s by blast
qed

lemma render_occupied_skipped:
  assumes "render ver True opts slots sched = Inr (Some lay)" and "(d, r) \<in> cellOccupied lay"
  shows "r < length slots" and "(d, c) \<notin> set (rows lay ! r)"
proof -
  from assms(2) obtain s ev rs where "r \<in> spanRows s rs (length slots)"
    unfolding render_occupied [OF assms(1)] by blast
  then show r: "r < length slots" by (simp add: spanRows_iff)
  show "(d, c) \<notin> set (rows lay ! r)"
    unfolding render_layout(2) [OF assms(1) r] rowCells_iff using assms(2) by simp
qed


text \<open>
  Claim C1, amended. After \<^verbatim>\<open>render\<close>, for every day: the rows marked occupied are exactly
  the rows covered by the spans of the events that got a cell, where the span of a cell
  built in row \<open>s\<close> with row span \<open>rs\<close> covers the rows \<open>s + 1\<close> to \<open>s + rs - 1\<close> cut at the grid
  length (never \<open>s\<close> itself, never a row at or beyond \<open>s + rs\<close>); the row span of a cell is
  \<^verbatim>\<open>getRowSpan\<close> of its event and its row is the one where the event starts; and a row
  marked occupied for a day has no cell of that day. (An event whose starting row is
  occupied gets no cell and marks nothing.)
\<close>

theorem occupied_rows_of_rendered_spans:
  assumes "render ver True opts slots sched = Inr (Some lay)"
  shows "length (rows lay) = length slots
       \<and> (\<forall>d r. (d, r) \<in> cellOccupied lay \<longleftrightarrow>
             (\<exists>s ev rs. s < length slots \<and> (d, EventCell ev rs) \<in> set (rows lay ! s)
                         \<and> r \<in> spanRows s rs (length slots)))
       \<and> (\<forall>d s ev rs. s < length slots \<and> (d, EventCell ev rs) \<in> set (rows lay ! s) \<longrightarrow>
             rs = getRowSpan ver opts (duration ev) \<and> startsHere ver opts (slots ! s) s ev)
       \<and> (\<forall>s rs r. r \<in> spanRows s rs (length slots) \<longleftrightarrow>
             s + 1 \<le> r \<and> int r \<le> int s + rs - 1 \<and> r < length slots)
       \<and> (\<forall>d r c. (d, r) \<in> cellOccupied lay \<longrightarrow> r < length slots \<and> (d, c) \<notin> set (rows lay ! r))"
proof (intro conjI allI impI)
  show "length (rows lay) = length slots" by (rule render_layout(1) [OF assms])
next
  fix d r
  show "(d, r) \<in> cellOccupied lay \<longleftrightarrow>
             (\<exists>s ev rs. s < length slots \<and> (d, EventCell ev rs) \<in> set (rows lay ! s)
                         \<and> r \<in> spanRows s rs (length slots))"
    by (rule render_occupied [OF assms])
next
  fix d s ev rs
  assume a: "s < length slots \<and> (d, EventCell ev rs) \<in> set (rows lay ! s)"
  then have c: "ev \<in> set (eventsStartingHere ver opts (sorted_data lay) (slots ! s) s d)"
    and rs: "rs = getRowSpan ver opts (duration ev)"
    using render_event_cell [OF assms, of s d ev rs] by simp_all
  show "rs = getRowSpan ver opts (duration ev)" by (rule rs)
  show "startsHere ver opts (slots ! s) s ev" using c by (simp add: eventsStartingHere_def)
next
  fix s rs r
  show "r \<in> spanRows s rs (length slots) \<longleftrightarrow>
             s + 1 \<le> r \<and> int r \<le> int s + rs - 1 \<and> r < length slots"
    by (auto simp: spanRows_iff)
next
  fix d r c
  assume "(d, r) \<in> cellOccupied lay"
  then show "r < length slots" "(d, c) \<notin> set (rows lay ! r)"
    using render_occupied_skipped [OF assms] by blast+
qed

text \<open>
  Version 1, rows of 30 minutes from 08:00, events A 9:00-10:00, B 9:30-10:30 and
  C 11:00-12:00 on the same Monday: rows 3 and 7 are marked for Monday, and row 3 has cells
  for the four other days only.
\<close>

theorem occupied_rows_of_rendered_spans_witness:
  "render V1 True options30
       (the (generateTimeSlots V1 options30 (scheduleOf calendarDay V1 options30 overlapExample)))
       (scheduleOf calendarDay V1 options30 overlapExample)
     = Inr (Some (layoutOf calendarDay V1 options30 overlapExample))
   \<and> length (rows (layoutOf calendarDay V1 options30 overlapExample)) = 20
   \<and> cellOccupied (layoutOf calendarDay V1 options30 overlapExample) = {(''Monday'', 3), (''Monday'', 7)}
   \<and> (''Monday'', EmptyCell) \<notin> set (rows (layoutOf calendarDay V1 options30 overlapExample) ! 3)
   \<and> map fst (rows (layoutOf calendarDay V1 options30 overlapExample) ! 3)
       = [''Tuesday'', ''Wednesday'', ''Thursday'', ''Friday'']"
proof -
  let ?S = "scheduleOf calendarDay V1 options30 overlapExample"
  let ?T = "the (generateTimeSlots V1 options30 ?S)"
  let ?L = "layoutOf calendarDay V1 options30 overlapExample"
  have R: "render V1 True options30 ?T ?S = Inr (Some ?L)" by code_simp
  have n: "length ?T = 20" by code_simp
  have o: "cellOccupied ?L = {(''Monday'', 3), (''Monday'', 7)}" by code_simp
  have m: "(''Monday'', 3) \<in> cellOccupied ?L" unfolding o by simp
  have c: "map fst (rows ?L ! 3) = [''Tuesday'', ''Wednesday'', ''Thursday'', ''Friday'']"
    by code_simp
  note T = occupied_rows_of_rendered_spans [OF R]
  have "length (rows ?L) = 20" using T [THEN conjunct1] n by simp
  moreover have "(''Monday'', EmptyCell) \<notin> set (rows ?L ! 3)"
    using T [THEN conjunct2, THEN conjunct2, THEN conjunct2, THEN conjunct2] m by blast
  ultimately show ?thesis using R o c by blast
qed

text \<open>
  Claim C1 as stated fails for an event without a cell: B has slot index 3 and row span 2,
  so its span would cover row 4 of the 20 rows, and row 4 is not marked for Monday.
\<close>

theorem hidden_event_marks_nothing_counterexample:
  "name (the (bucket (sorted_data (layoutOf calendarDay V1 options30 overlapExample)) ''Monday'') ! 1) = ''B''
   \<and> slotIndex (the (bucket (sorted_data (layoutOf calendarDay V1 options30 overlapExample)) ''Monday'') ! 1) = Some 3
   \<and> getRowSpan V1 options30
        (duration (the (bucket (sorted_data (layoutOf calendarDay V1 options30 overlapExample)) ''Monday'') ! 1)) = 2
   \<and> length (rows (layoutOf calendarDay V1 options30 overlapExample)) = 20
   \<and> 4 \<in> spanRows 3 2 20
   \<and> (''Monday'', 4) \<notin> cellOccupied (layoutOf calendarDay V1 options30 overlapExample)"
  by code_simp

text \<open>
  Claim C10. An event has a cell in a row exactly when that row is not marked occupied for
  its day and the event is among those starting there (alone or with siblings). So an event
  whose starting row is occupied has no cell at all: in the example, B starts in the row
  that the span of A occupies, in version 1 (slot index 3) and in version 2 (window of
  row 1), and B is not among the events of the layout.
\<close>

theorem occupied_start_row_hides_event:
  "(render ver True opts slots sched = Inr (Some lay) \<and> s < length slots \<longrightarrow>
      ((d, EventCell ev rs) \<in> set (rows lay ! s) \<longleftrightarrow>
         (d, s) \<notin> cellOccupied lay \<and> d \<in> fst ` set (sorted_data lay)
         \<and> ev \<in> set (eventsStartingHere ver opts (sorted_data lay) (slots ! s) s d)
         \<and> rs = getRowSpan ver opts (duration ev)))
   \<and> (slotIndex (the (bucket (sorted_data (layoutOf calendarDay V1 options30 overlapExample)) ''Monday'') ! 1) = Some 3
      \<and> (''Monday'', 3) \<in> cellOccupied (layoutOf calendarDay V1 options30 overlapExample)
      \<and> the (bucket (sorted_data (layoutOf calendarDay V1 options30 overlapExample)) ''Monday'') ! 1
          \<notin> set (renderedEvents (layoutOf calendarDay V1 options30 overlapExample)))
   \<and> (startsHere V2 options30
          (the (generateTimeSlots V2 options30 (scheduleOf calendarDay V2 options30 overlapExample)) ! 1) 1
          (the (bucket (sorted_data (layoutOf calendarDay V2 options30 overlapExample)) ''Monday'') ! 1)
      \<and> (''Monday'', 1) \<in> cellOccupied (layoutOf calendarDay V2 options30 overlapExample)
      \<and> the (bucket (sorted_data (layoutOf calendarDay V2 options30 overlapExample)) ''Monday'') ! 1
          \<notin> set (renderedEvents (layoutOf calendarDay V2 options30 overlapExample)))"
proof (intro conjI impI)
  assume a: "render ver True opts slots sched = Inr (Some lay) \<and> s < length slots"
  show "(d, EventCell ev rs) \<in> set (rows lay ! s) \<longleftrightarrow>
         (d, s) \<notin> cellOccupied lay \<and> d \<in> fst ` set (sorted_data lay)
         \<and> ev \<in> set (eventsStartingHere ver opts (sorted_data lay) (slots ! s) s d)
         \<and> rs = getRowSpan ver opts (duration ev)"
    using render_event_cell [of ver opts slots sched lay s d ev rs] a by blast
qed code_simp+

text \<open>
  Version 2 on the same events: the grid has 6 rows from 09:00; A has its cell in row 0,
  row 1 is occupied and holds no cell for B.
\<close>

theorem occupied_start_row_hides_event_witness:
  "render V2 True options30
       (the (generateTimeSlots V2 options30 (scheduleOf calendarDay V2 options30 overlapExample)))
       (scheduleOf calendarDay V2 options30 overlapExample)
     = Inr (Some (layoutOf calendarDay V2 options30 overlapExample))
   \<and> length (the (generateTimeSlots V2 options30 (scheduleOf calendarDay V2 options30 overlapExample))) = 6
   \<and> map name (the (bucket (sorted_data (layoutOf calendarDay V2 options30 overlapExample)) ''Monday''))
       = [''A'', ''B'', ''C'']
   \<and> (''Monday'', 1) \<in> cellOccupied (layoutOf calendarDay V2 options30 overlapExample)
   \<and> (''Monday'', EventCell (the (bucket (sorted_data (layoutOf calendarDay V2 options30 overlapExample)) ''Monday'') ! 1) 2)
        \<notin> set (rows (layoutOf calendarDay V2 options30 overlapExample) ! 1)
   \<and> (''Monday'', EventCell (the (bucket (sorted_data (layoutOf calendarDay V2 options30 overlapExample)) ''Monday'') ! 0) 2)
        \<in> set (rows (layoutOf calendarDay V2 options30 overlapExample) ! 0)"
proof -
  let ?S = "scheduleOf calendarDay V2 options30 overlapExample"
  let ?T = "the (generateTimeSlots V2 options30 ?S)"
  let ?L = "layoutOf calendarDay V2 options30 overlapExample"
  let ?A = "the (bucket (sorted_data ?L) ''Monday'') ! 0"
  let ?B = "the (bucket (sorted_data ?L) ''Monday'') ! 1"
  have R: "render V2 True options30 ?T ?S = Inr (Some ?L)" by code_simp
  have n: "length ?T = 6" by code_simp
  have nm: "map name (the (bucket (sorted_data ?L) ''Monday'')) = [''A'', ''B'', ''C'']" by code_simp
  have o: "(''Monday'', 1) \<in> cellOccupied ?L" by code_simp
  have k: "(''Monday'', 0) \<notin> cellOccupied ?L" "''Monday'' \<in> fst ` set (sorted_data ?L)"
    "?A \<in> set (eventsStartingHere V2 options30 (sorted_data ?L) (?T ! 0) 0 ''Monday'')"
    "2 = getRowSpan V2 options30 (duration ?A)"
    by code_simp+
  have s0: "0 < length ?T" and s1: "1 < length ?T" unfolding n by simp_all
  have "(''Monday'', EventCell ?B 2) \<notin> set (rows ?L ! 1)"
    using occupied_start_row_hides_event [of V2 options30 ?T ?S ?L 1 "''Monday''" ?B 2,
        THEN conjunct1] R s1 o by blast
  moreover have "(''Monday'', EventCell ?A 2) \<in> set (rows ?L ! 0)"
    using occupied_start_row_hides_event [of V2 options30 ?T ?S ?L 0 "''Monday''" ?A 2,
        THEN conjunct1] R s0 k by blast
  ultimately show ?thesis using R n nm o by blast
qed

section \<open>Order of the events of a day\<close>

lemma bucket_push:
  "bucket (push k e s) d = (if d = k then map_option (\<lambda>es. es @ [e]) (bucket s d) else bucket s d)"
proof (induction s)
  case Nil
  then show ?case by simp
next
  case (Cons p s)
  obtain k' v' where p: "p = (k', v')" by (cases p)
  show ?case using Cons unfolding p by (cases "k' = k") auto
qed

lemma bucket_prepareStep:
  assumes "prepareStep getDay ver s r = Inr s'" and "bucket s d = Some es"
  shows "\<exists>new. bucket s' d = Some (es @ new)
           \<and> list_all2 (normalizes ver) (filter (resolvesTo getDay ver d) [r]) new"
proof (cases "Date r")
  case None
  with assms(1) show ?thesis by (simp add: prepareStep_def)
next
  case (Some ds)
  let ?k = "propertyKey (getDayOfWeek getDay ver ds)"
  show ?thesis
  proof (cases "bucket s ?k")
    case None
    then have "s' = s" and "?k \<noteq> d" using Some assms by (auto simp: prepareStep_def)
    then show ?thesis using assms(2) Some by (simp add: resolvesTo_def)
  next
    case b: (Some es1)
    show ?thesis
    proof (cases "processTime (Heure r)")
      case (Inl x)
      with Some b assms(1) show ?thesis by (simp add: prepareStep_def)
    next
      case (Inr ti)
      with Some b assms(1) have s': "s' = push ?k (makeEvent ver ti r) s"
        by (simp add: prepareStep_def)
      show ?thesis
      proof (cases "d = ?k")
        case True
        then have "bucket s' d = Some (es @ [makeEvent ver ti r])"
          using assms(2) by (simp add: s' bucket_push)
        moreover have "list_all2 (normalizes ver) (filter (resolvesTo getDay ver d) [r]) [makeEvent ver ti r]"
          using True Some Inr by (simp add: resolvesTo_def normalizes_def)
        ultimately show ?thesis by blast
      next
        case False
        then have "bucket s' d = Some (es @ [])" using assms(2) by (simp add: s' bucket_push)
        moreover have "list_all2 (normalizes ver) (filter (resolvesTo getDay ver d) [r]) []"
          using False Some by (simp add: resolvesTo_def)
        ultimately show ?thesis by blast
      qed
    qed
  qed
qed

lemma bucket_forEach:
  assumes "forEach (prepareStep getDay ver) raw s = Inr s'" and "bucket s d = Some es"
  shows "\<exists>new. bucket s' d = Some (es @ new)
           \<and> list_all2 (normalizes ver) (filter (resolvesTo getDay ver d) raw) new"
  using assms
proof (induction raw arbitrary: s es)
  case Nil
  then show ?case by simp
next
  case (Cons r raw)
  from Cons.prems(1) obtain s1 where s1: "prepareStep getDay ver s r = Inr s1"
    and rest: "forEach (prepareStep getDay ver) raw s1 = Inr s'"
    by (auto split: sum.splits)
  from bucket_prepareStep [OF s1 Cons.prems(2)] obtain new1
    where b1: "bucket s1 d = Some (es @ new1)"
      and l1: "list_all2 (normalizes ver) (filter (resolvesTo getDay ver d) [r]) new1" by blast
  from Cons.IH [OF rest b1] obtain new2
    where b2: "bucket s' d = Some ((es @ new1) @ new2)"
      and l2: "list_all2 (normalizes ver) (filter (resolvesTo getDay ver d) raw) new2" by blast
  have "filter (resolvesTo getDay ver d) (r # raw) = filter (resolvesTo getDay ver d) [r] @ filter (resolvesTo getDay ver d) raw"
    by simp
  then have "list_all2 (normalizes ver) (filter (resolvesTo getDay ver d) (r # raw)) (new1 @ new2)"
    using l1 l2 by (simp only: list_all2_appendI)
  with b2 show ?case by (intro exI [of _ "new1 @ new2"]) simp
qed

lemma bucket_initPrepared: "bucket (initPrepared names) d = Some es \<Longrightarrow> es = []"
proof -
  assume a: "bucket (initPrepared names) d = Some es"
  have "bucket s d = Some es \<Longrightarrow> es \<in> set (map snd s)" for s :: schedule
    by (induction s) (auto split: if_splits)
  from this [OF a] have "set es \<subseteq> set (concat (map snd (initPrepared names)))" by auto
  then show "es = []" unfolding events_initPrepared by simp
qed

lemma bucket_prepareData:
  assumes "prepareData getDay ver opts raw = Inr sched" and "bucket sched d = Some es"
  shows "list_all2 (normalizes ver) (filter (resolvesTo getDay ver d) raw) es"
proof -
  let ?i = "initPrepared (weekdays opts)"
  have fe: "forEach (prepareStep getDay ver) raw ?i = Inr sched" using assms(1) by (simp add: prepareData_def)
  have "fst ` set sched = fst ` set ?i" using keys_forEach [OF fe] by (metis set_map)
  then have "bucket ?i d \<noteq> None" using assms(2) bucket_None [of sched d] bucket_None [of ?i d] by simp
  then obtain e0 where e0: "bucket ?i d = Some e0" by blast
  then have "e0 = []" by (rule bucket_initPrepared)
  with bucket_forEach [OF fe e0] assms(2) show ?thesis by simp
qed

lemma bucket_sortDays: "bucket (sortDays s) d = map_option (sort_key startMinutes) (bucket s d)"
  by (induction s) (auto simp: sortDays_def)

lemma mapE_setSlotIndex:
  "mapE (setSlotIndex opts slots) es = Inr es' \<Longrightarrow>
     map (\<lambda>e. e\<lparr>slotIndex := None\<rparr>) es' = map (\<lambda>e. e\<lparr>slotIndex := None\<rparr>) es
     \<and> map startMinutes es' = map startMinutes es"
proof (induction es arbitrary: es')
  case Nil
  then show ?case by simp
next
  case (Cons e es)
  from Cons.prems obtain e1 es1 where e1: "setSlotIndex opts slots e = Inr e1"
    and es1: "mapE (setSlotIndex opts slots) es = Inr es1" and es': "es' = e1 # es1"
    by (auto split: sum.splits)
  from e1 obtain i where "e1 = e\<lparr>slotIndex := Some i\<rparr>"
    by (auto simp: setSlotIndex_def split: sum.splits)
  then show ?case using Cons.IH [OF es1] es' by simp
qed

lemma bucket_assignSlots:
  assumes "assignSlots ver opts slots s = Inr s'" and "bucket s' d = Some es'"
  shows "\<exists>es. bucket s d = Some es
           \<and> map (\<lambda>e. e\<lparr>slotIndex := None\<rparr>) es' = map (\<lambda>e. e\<lparr>slotIndex := None\<rparr>) es
           \<and> map startMinutes es' = map startMinutes es"
proof (cases ver)
  case V2
  with assms show ?thesis by simp
next
  case V1
  have "mapE (\<lambda>(day, events).
             case mapE (setSlotIndex opts slots) events of
               Inl e \<Rightarrow> Inl e
             | Inr events' \<Rightarrow> Inr (day, events')) s = Inr s' \<Longrightarrow> bucket s' d = Some es' \<Longrightarrow> ?thesis"
  proof (induction s arbitrary: s')
    case Nil
    then show ?case by simp
  next
    case (Cons p s)
    obtain k v where p: "p = (k, v)" by (cases p)
    from Cons.prems(1) obtain v1 s1 where v1: "mapE (setSlotIndex opts slots) v = Inr v1"
      and s1: "mapE (\<lambda>(day, events).
             case mapE (setSlotIndex opts slots) events of
               Inl e \<Rightarrow> Inl e
             | Inr events' \<Rightarrow> Inr (day, events')) s = Inr s1"
      and s': "s' = (k, v1) # s1"
      unfolding p by (auto split: sum.splits)
    show ?case
    proof (cases "k = d")
      case True
      then have "es' = v1" using Cons.prems(2) s' by simp
      then show ?thesis using mapE_setSlotIndex [OF v1] True p by simp
    next
      case False
      then have "bucket s1 d = Some es'" using Cons.prems(2) s' by simp
      from Cons.IH [OF s1 this] show ?thesis using False p by simp
    qed
  qed
  then show ?thesis using assms V1 by simp
qed


lemma normalizes_slotIndex: "normalizes ver r e \<Longrightarrow> e\<lparr>slotIndex := None\<rparr> = e"
  by (auto simp: normalizes_def makeEvent_def)

lemma normalized_strip:
  "list_all2 (normalizes ver) rs es \<Longrightarrow> map (\<lambda>e. e\<lparr>slotIndex := None\<rparr>) es = es"
  by (induction rs es rule: list_all2_induct) (simp_all add: normalizes_slotIndex)

lemma filter_start_strip:
  "map (\<lambda>e. e\<lparr>slotIndex := None\<rparr>) (filter (\<lambda>e. startMinutes e = k) es)
     = filter (\<lambda>e. startMinutes e = k) (map (\<lambda>e. e\<lparr>slotIndex := None\<rparr>) es)"
  by (induction es) simp_all

text \<open>
  Claim C8. After \<^verbatim>\<open>render\<close>, the events of each day are in ascending order of
  \<^verbatim>\<open>startMinutes\<close>, and the sort is stable with respect to the raw input: the bucket built by
  \<^verbatim>\<open>prepareData\<close> holds the normal forms of the day's raw records in input order, and for every
  start time the sorted events with that start are the events of the bucket with that start,
  in the same order (up to the \<^verbatim>\<open>slotIndex\<close> that version 1 writes into them).
\<close>

theorem sorted_stable_per_day:
  assumes "prepareData getDay ver opts raw = Inr sched"
    and "render ver True opts slots sched = Inr (Some lay)"
    and "bucket (sorted_data lay) day = Some es"
  shows "sorted (map startMinutes es)
       \<and> (\<exists>es0. bucket sched day = Some es0
            \<and> list_all2 (normalizes ver) (filter (resolvesTo getDay ver day) raw) es0
            \<and> (\<forall>k. map (\<lambda>e. e\<lparr>slotIndex := None\<rparr>) (filter (\<lambda>e. startMinutes e = k) es)
                     = filter (\<lambda>e. startMinutes e = k) es0))"
proof -
  have a: "assignSlots ver opts slots (sortDays sched) = Inr (sorted_data lay)"
    by (rule render_layout(4) [OF assms(2)])
  from bucket_assignSlots [OF a assms(3)] obtain es1
    where b1: "bucket (sortDays sched) day = Some es1"
      and st: "map (\<lambda>e. e\<lparr>slotIndex := None\<rparr>) es = map (\<lambda>e. e\<lparr>slotIndex := None\<rparr>) es1"
      and sm: "map startMinutes es = map startMinutes es1" by blast
  from b1 obtain es0 where b0: "bucket sched day = Some es0"
    and s1: "es1 = sort_key startMinutes es0"
    unfolding bucket_sortDays by (cases "bucket sched day") auto
  have n: "list_all2 (normalizes ver) (filter (resolvesTo getDay ver day) raw) es0"
    by (rule bucket_prepareData [OF assms(1) b0])
  have id0: "map (\<lambda>e. e\<lparr>slotIndex := None\<rparr>) es0 = es0" by (rule normalized_strip [OF n])
  have srt: "sorted (map startMinutes es)" unfolding sm s1 by (rule sorted_sort_key)
  have stab: "map (\<lambda>e. e\<lparr>slotIndex := None\<rparr>) (filter (\<lambda>e. startMinutes e = k) es)
                = filter (\<lambda>e. startMinutes e = k) es0" for k
  proof -
    have "map (\<lambda>e. e\<lparr>slotIndex := None\<rparr>) (filter (\<lambda>e. startMinutes e = k) es)
        = filter (\<lambda>e. startMinutes e = k) (map (\<lambda>e. e\<lparr>slotIndex := None\<rparr>) es1)"
      unfolding filter_start_strip st ..
    also have "\<dots> = map (\<lambda>e. e\<lparr>slotIndex := None\<rparr>) (filter (\<lambda>e. startMinutes e = k) es1)"
      by (rule filter_start_strip [symmetric])
    also have "filter (\<lambda>e. startMinutes e = k) es1 = filter (\<lambda>e. startMinutes e = k) es0"
      unfolding s1 by (rule sort_key_stable)
    also have "map (\<lambda>e. e\<lparr>slotIndex := None\<rparr>) (filter (\<lambda>e. startMinutes e = k) es0)
        = filter (\<lambda>e. startMinutes e = k) es0"
      unfolding filter_start_strip id0 ..
    finally show ?thesis .
  qed
  from srt b0 n stab show ?thesis by blast
qed

text \<open>
  Input order A 10:00-11:00, B 9:00-10:00, C 10:00-10:30 on one Monday: the sorted day is
  B, A, C, with A before C as in the input.
\<close>

theorem sorted_stable_per_day_witness:
  "prepareData calendarDay V1 defaults sortExample = Inr (scheduleOf calendarDay V1 defaults sortExample)
   \<and> map (map name \<circ> snd) (scheduleOf calendarDay V1 defaults sortExample) = [[''A'', ''B'', ''C''], [], [], [], []]
   \<and> render V1 True defaults
         (the (generateTimeSlots V1 defaults (scheduleOf calendarDay V1 defaults sortExample)))
         (scheduleOf calendarDay V1 defaults sortExample)
       = Inr (Some (layoutOf calendarDay V1 defaults sortExample))
   \<and> map name (the (bucket (sorted_data (layoutOf calendarDay V1 defaults sortExample)) ''Monday''))
       = [''B'', ''A'', ''C'']
   \<and> map startMinutes (the (bucket (sorted_data (layoutOf calendarDay V1 defaults sortExample)) ''Monday''))
       = [540, 600, 600]
   \<and> sorted (map startMinutes (the (bucket (sorted_data (layoutOf calendarDay V1 defaults sortExample)) ''Monday'')))"
proof -
  let ?S = "scheduleOf calendarDay V1 defaults sortExample"
  let ?T = "the (generateTimeSlots V1 defaults ?S)"
  let ?L = "layoutOf calendarDay V1 defaults sortExample"
  let ?E = "the (bucket (sorted_data ?L) ''Monday'')"
  have P: "prepareData calendarDay V1 defaults sortExample = Inr ?S" by code_simp
  have N0: "map (map name \<circ> snd) ?S = [[''A'', ''B'', ''C''], [], [], [], []]" by code_simp
  have R: "render V1 True defaults ?T ?S = Inr (Some ?L)" by code_simp
  have "bucket (sorted_data ?L) ''Monday'' \<noteq> None" by code_simp
  then have B: "bucket (sorted_data ?L) ''Monday'' = Some ?E" by simp
  have N: "map name ?E = [''B'', ''A'', ''C'']" by code_simp
  have M: "map startMinutes ?E = [540, 600, 600]" by code_simp
  from sorted_stable_per_day [OF P R B] have "sorted (map startMinutes ?E)" by blast
  with P N0 R N M show ?thesis by blast
qed

section \<open>Slot index and row of an event\<close>

lemma mapE_member:
  "mapE f xs = Inr ys \<Longrightarrow> y \<in> set ys \<Longrightarrow> \<exists>x \<in> set xs. f x = Inr y"
proof (induction xs arbitrary: ys)
  case Nil
  then show ?case by simp
next
  case (Cons x xs)
  from Cons.prems(1) obtain y1 ys1 where y1: "f x = Inr y1"
    and ys1: "mapE f xs = Inr ys1" and ys: "ys = y1 # ys1"
    by (auto split: sum.splits)
  show ?case
  proof (cases "y = y1")
    case True
    then show ?thesis using y1 by simp
  next
    case False
    then have "y \<in> set ys1" using Cons.prems(2) ys by simp
    from Cons.IH [OF ys1 this] show ?thesis by auto
  qed
qed

lemma bucket_assignSlots_V1:
  "assignSlots V1 opts slots s = Inr s' \<Longrightarrow> bucket s' d = Some es' \<Longrightarrow>
     \<exists>es. bucket s d = Some es \<and> mapE (setSlotIndex opts slots) es = Inr es'"
proof (induction s arbitrary: s')
  case Nil
  then show ?case by simp
next
  case (Cons p s)
  obtain k v where p: "p = (k, v)" by (cases p)
  from Cons.prems(1) obtain v1 s1 where v1: "mapE (setSlotIndex opts slots) v = Inr v1"
    and s1: "assignSlots V1 opts slots s = Inr s1"
    and s': "s' = (k, v1) # s1"
    unfolding p by (auto split: sum.splits)
  show ?case
  proof (cases "k = d")
    case True
    then have "es' = v1" using Cons.prems(2) s' by simp
    then show ?thesis using v1 True p by simp
  next
    case False
    then have "bucket s1 d = Some es'" using Cons.prems(2) s' by simp
    from Cons.IH [OF s1 this] show ?thesis using False p by simp
  qed
qed

lemma setSlotIndex_Inr:
  "setSlotIndex opts slots e0 = Inr e \<Longrightarrow>
     \<exists>i. getTimeSlotIndex opts slots (startMinutes e0) = Inr i \<and> e = e0\<lparr>slotIndex := Some i\<rparr>"
  by (auto simp: setSlotIndex_def split: sum.splits)

lemma bucket_events: "bucket s d = Some es \<Longrightarrow> set es \<subseteq> set (concat (map snd s))"
proof (induction s)
  case Nil
  then show ?case by simp
next
  case (Cons p s)
  obtain k v where p: "p = (k, v)" by (cases p)
  show ?case
  proof (cases "k = d")
    case True
    then show ?thesis using Cons.prems p by auto
  next
    case False
    then have "bucket s d = Some es" using Cons.prems p by simp
    from Cons.IH [OF this] show ?thesis by auto
  qed
qed

lemma bucket_key: "bucket s d = Some es \<Longrightarrow> d \<in> fst ` set s"
  using bucket_None [of s d] by auto

lemma eventsStartingHere_iff:
  "bucket sched d = Some es \<Longrightarrow>
     ev \<in> set (eventsStartingHere ver opts sched slot s d) \<longleftrightarrow> ev \<in> set es \<and> startsHere ver opts slot s ev"
  by (simp add: eventsStartingHere_def)

lemma startsHere_of_member:
  "ev \<in> set (eventsStartingHere ver opts sched slot s d) \<Longrightarrow> startsHere ver opts slot s ev"
  by (simp add: eventsStartingHere_def)

lemma renderedEvents_cell:
  "ev \<in> set (renderedEvents lay) \<Longrightarrow>
     \<exists>s d rs. s < length (rows lay) \<and> (d, EventCell ev rs) \<in> set (rows lay ! s)"
proof -
  assume "ev \<in> set (renderedEvents lay)"
  then obtain p where p: "p \<in> set (concat (rows lay))"
    and c: "ev \<in> set (case snd p of EventCell ev rowSpan \<Rightarrow> [ev] | EmptyCell \<Rightarrow> [])"
    by (auto simp: renderedEvents_def)
  from c obtain rs where "snd p = EventCell ev rs" by (cases "snd p") auto
  then have pe: "p = (fst p, EventCell ev rs)" by (cases p) simp
  from p obtain row where "row \<in> set (rows lay)" "p \<in> set row" by auto
  then obtain s where "s < length (rows lay)" "p \<in> set (rows lay ! s)"
    by (auto simp: in_set_conv_nth)
  then show ?thesis using pe by metis
qed


text \<open>
  Claim C3, amended. For a positive interval, after \<^verbatim>\<open>render\<close> on the generated grid:
  in version 1 the grid is not empty, \<^verbatim>\<open>getTimeSlotIndex\<close> returns the slot index of the
  specification (the index of the first slot whose window holds the start, row 0 for a
  start before the first slot, the last row for a start at or after the end of the last
  window), that index is stored in \<^verbatim>\<open>slotIndex\<close> of every event of every day, it lies in
  [0, slotCount - 1], and the event has its cell in the row of that index exactly when that
  row is not occupied for its day, and in no other row. Version 2 stores no index and does
  not clamp: an event has its cell exactly in the unoccupied rows whose window holds its
  start; for an event that ends after it starts there is one such window, in the row of the
  slot index of the specification; an event whose start is in no window has no cell.
\<close>

theorem slotIndex_and_row:
  assumes i: "0 < timeInterval opts"
  shows "(generateTimeSlots V1 opts sched = Some slots
          \<and> render V1 True opts slots sched = Inr (Some lay)
          \<and> bucket (sorted_data lay) day = Some es \<and> ev \<in> set es \<longrightarrow>
            slots \<noteq> []
          \<and> getTimeSlotIndex opts slots t = Inr (spec_slotIndex (timeInterval opts) slots t)
          \<and> slotIndex ev = Some (spec_slotIndex (timeInterval opts) slots (startMinutes ev))
          \<and> 0 \<le> spec_slotIndex (timeInterval opts) slots (startMinutes ev)
          \<and> spec_slotIndex (timeInterval opts) slots (startMinutes ev) \<le> int (length slots) - 1
          \<and> (startMinutes ev < minutes (hd slots) \<longrightarrow> slotIndex ev = Some 0)
          \<and> (minutes (last slots) + timeInterval opts \<le> startMinutes ev \<longrightarrow>
                slotIndex ev = Some (int (length slots) - 1))
          \<and> (\<forall>s rs. s < length slots \<longrightarrow>
                ((day, EventCell ev rs) \<in> set (rows lay ! s) \<longleftrightarrow>
                   int s = spec_slotIndex (timeInterval opts) slots (startMinutes ev)
                   \<and> (day, s) \<notin> cellOccupied lay
                   \<and> rs = getRowSpan V1 opts (duration ev))))
       \<and> (generateTimeSlots V2 opts sched = Some slots
          \<and> render V2 True opts slots sched = Inr (Some lay)
          \<and> bucket (sorted_data lay) day = Some es \<and> ev \<in> set es \<longrightarrow>
            (\<forall>s rs. s < length slots \<longrightarrow>
                ((day, EventCell ev rs) \<in> set (rows lay ! s) \<longleftrightarrow>
                   (minutes (slots ! s) \<le> startMinutes ev
                    \<and> startMinutes ev < minutes (slots ! s) + timeInterval opts)
                   \<and> (day, s) \<notin> cellOccupied lay
                   \<and> rs = getRowSpan V2 opts (duration ev)))
          \<and> (startMinutes ev < endMinutes ev \<longrightarrow>
                slots \<noteq> []
              \<and> 0 \<le> spec_slotIndex (timeInterval opts) slots (startMinutes ev)
              \<and> spec_slotIndex (timeInterval opts) slots (startMinutes ev) \<le> int (length slots) - 1
              \<and> (\<forall>s < length slots.
                    (minutes (slots ! s) \<le> startMinutes ev
                     \<and> startMinutes ev < minutes (slots ! s) + timeInterval opts)
                    \<longleftrightarrow> int s = spec_slotIndex (timeInterval opts) slots (startMinutes ev)))
          \<and> ((\<forall>s < length slots.
                 \<not> (minutes (slots ! s) \<le> startMinutes ev
                    \<and> startMinutes ev < minutes (slots ! s) + timeInterval opts)) \<longrightarrow>
                ev \<notin> set (renderedEvents lay)))"
proof (intro conjI impI)
  let ?i = "timeInterval opts"
  assume a: "generateTimeSlots V1 opts sched = Some slots
          \<and> render V1 True opts slots sched = Inr (Some lay)
          \<and> bucket (sorted_data lay) day = Some es \<and> ev \<in> set es"
  then have g: "generateTimeSlots V1 opts sched = Some slots"
    and r: "render V1 True opts slots sched = Inr (Some lay)"
    and b: "bucket (sorted_data lay) day = Some es" and e: "ev \<in> set es" by simp_all
  have F: "slots \<noteq> []"
    "getTimeSlotIndex opts slots u = Inr (spec_slotIndex ?i slots u)"
    "0 \<le> spec_slotIndex ?i slots u"
    "spec_slotIndex ?i slots u \<le> int (length slots) - 1"
    "u < minutes (hd slots) \<longrightarrow> getTimeSlotIndex opts slots u = Inr 0"
    "minutes (last slots) + ?i \<le> u \<longrightarrow> getTimeSlotIndex opts slots u = Inr (int (length slots) - 1)"
    for u
    using grid_index_facts [OF i, of sched slots u] g by blast+
  have as: "assignSlots V1 opts slots (sortDays sched) = Inr (sorted_data lay)"
    by (rule render_layout(4) [OF r])
  from bucket_assignSlots_V1 [OF as b] obtain es1
    where m: "mapE (setSlotIndex opts slots) es1 = Inr es" by blast
  from mapE_member [OF m e] obtain ev0 where "setSlotIndex opts slots ev0 = Inr ev" by blast
  from setSlotIndex_Inr [OF this] obtain k
    where k: "getTimeSlotIndex opts slots (startMinutes ev0) = Inr k"
      and ev: "ev = ev0\<lparr>slotIndex := Some k\<rparr>" by blast
  have st: "startMinutes ev = startMinutes ev0" and si: "slotIndex ev = Some k" by (simp_all add: ev)
  have kk: "getTimeSlotIndex opts slots (startMinutes ev) = Inr k" using k st by simp
  show "slots \<noteq> []" by (rule F(1))
  show "getTimeSlotIndex opts slots t = Inr (spec_slotIndex ?i slots t)" by (rule F(2))
  show idx: "slotIndex ev = Some (spec_slotIndex ?i slots (startMinutes ev))"
    using si kk F(2) [of "startMinutes ev"] by simp
  show "0 \<le> spec_slotIndex ?i slots (startMinutes ev)" by (rule F(3))
  show "spec_slotIndex ?i slots (startMinutes ev) \<le> int (length slots) - 1" by (rule F(4))
  show "slotIndex ev = Some 0" if "startMinutes ev < minutes (hd slots)"
    using that si kk F(5) [of "startMinutes ev"] by simp
  show "slotIndex ev = Some (int (length slots) - 1)" if "minutes (last slots) + ?i \<le> startMinutes ev"
    using that si kk F(6) [of "startMinutes ev"] by simp
  show "\<forall>s rs. s < length slots \<longrightarrow>
                ((day, EventCell ev rs) \<in> set (rows lay ! s) \<longleftrightarrow>
                   int s = spec_slotIndex ?i slots (startMinutes ev)
                   \<and> (day, s) \<notin> cellOccupied lay
                   \<and> rs = getRowSpan V1 opts (duration ev))"
  proof (intro allI impI)
    fix s rs assume s: "s < length slots"
    have "ev \<in> set (eventsStartingHere V1 opts (sorted_data lay) (slots ! s) s day)
          \<longleftrightarrow> int s = spec_slotIndex ?i slots (startMinutes ev)"
      unfolding eventsStartingHere_iff [OF b] using e idx by auto
    then show "(day, EventCell ev rs) \<in> set (rows lay ! s) \<longleftrightarrow>
                   int s = spec_slotIndex ?i slots (startMinutes ev)
                   \<and> (day, s) \<notin> cellOccupied lay
                   \<and> rs = getRowSpan V1 opts (duration ev)"
      unfolding render_event_cell [OF r s] using bucket_key [OF b] by blast
  qed
next
  let ?i = "timeInterval opts"
  assume a: "generateTimeSlots V2 opts sched = Some slots
          \<and> render V2 True opts slots sched = Inr (Some lay)
          \<and> bucket (sorted_data lay) day = Some es \<and> ev \<in> set es"
  then have g: "generateTimeSlots V2 opts sched = Some slots"
    and r: "render V2 True opts slots sched = Inr (Some lay)"
    and b: "bucket (sorted_data lay) day = Some es" and e: "ev \<in> set es" by simp_all
  have as: "assignSlots V2 opts slots (sortDays sched) = Inr (sorted_data lay)"
    by (rule render_layout(4) [OF r])
  then have sd: "sorted_data lay = sortDays sched" by simp
  from b obtain es0 where b0: "bucket sched day = Some es0" and es: "es = sort_key startMinutes es0"
    unfolding sd bucket_sortDays by (cases "bucket sched day") auto
  have mem: "ev \<in> set (concat (map snd sched))"
    using bucket_events [OF b0] e es by auto
  show "\<forall>s rs. s < length slots \<longrightarrow>
                ((day, EventCell ev rs) \<in> set (rows lay ! s) \<longleftrightarrow>
                   (minutes (slots ! s) \<le> startMinutes ev
                    \<and> startMinutes ev < minutes (slots ! s) + ?i)
                   \<and> (day, s) \<notin> cellOccupied lay
                   \<and> rs = getRowSpan V2 opts (duration ev))"
  proof (intro allI impI)
    fix s rs assume s: "s < length slots"
    have "ev \<in> set (eventsStartingHere V2 opts (sorted_data lay) (slots ! s) s day)
          \<longleftrightarrow> minutes (slots ! s) \<le> startMinutes ev \<and> startMinutes ev < minutes (slots ! s) + ?i"
      unfolding eventsStartingHere_iff [OF b] using e by auto
    then show "(day, EventCell ev rs) \<in> set (rows lay ! s) \<longleftrightarrow>
                   (minutes (slots ! s) \<le> startMinutes ev
                    \<and> startMinutes ev < minutes (slots ! s) + ?i)
                   \<and> (day, s) \<notin> cellOccupied lay
                   \<and> rs = getRowSpan V2 opts (duration ev)"
      unfolding render_event_cell [OF r s] using bucket_key [OF b] by blast
  qed
  show "slots \<noteq> []" "0 \<le> spec_slotIndex ?i slots (startMinutes ev)"
    "spec_slotIndex ?i slots (startMinutes ev) \<le> int (length slots) - 1"
    "\<forall>s < length slots.
        (minutes (slots ! s) \<le> startMinutes ev \<and> startMinutes ev < minutes (slots ! s) + ?i)
        \<longleftrightarrow> int s = spec_slotIndex ?i slots (startMinutes ev)"
    if "startMinutes ev < endMinutes ev"
    using grid_index_facts [OF i, of sched slots 0 ev] g mem that by simp_all
  show "ev \<notin> set (renderedEvents lay)"
    if no: "\<forall>s < length slots.
                 \<not> (minutes (slots ! s) \<le> startMinutes ev
                    \<and> startMinutes ev < minutes (slots ! s) + ?i)"
  proof
    assume "ev \<in> set (renderedEvents lay)"
    from renderedEvents_cell [OF this] obtain s d rs
      where s: "s < length (rows lay)" and c: "(d, EventCell ev rs) \<in> set (rows lay ! s)" by blast
    have s': "s < length slots" using s render_layout(1) [OF r] by simp
    from c have "ev \<in> set (eventsStartingHere V2 opts (sorted_data lay) (slots ! s) s d)"
      unfolding render_event_cell [OF r s'] by simp
    then have "startsHere V2 opts (slots ! s) s ev" by (rule startsHere_of_member)
    then show False using no s' by simp
  qed
qed


text \<open>
  Version 1, rows of 30 minutes: E starts at 07:00, before the first slot; its slot index is
  0 and its cell, of row span 3, is in row 0. Version 2 on the overlap example: C, at 11:00,
  has its cell in row 4 of the grid that starts at 09:00.
\<close>

theorem slotIndex_and_row_witness:
  "0 < timeInterval options30
   \<and> generateTimeSlots V1 options30 (scheduleOf calendarDay V1 options30 edgeExample)
       = Some (the (generateTimeSlots V1 options30 (scheduleOf calendarDay V1 options30 edgeExample)))
   \<and> render V1 True options30
         (the (generateTimeSlots V1 options30 (scheduleOf calendarDay V1 options30 edgeExample)))
         (scheduleOf calendarDay V1 options30 edgeExample)
       = Inr (Some (layoutOf calendarDay V1 options30 edgeExample))
   \<and> map name (the (bucket (sorted_data (layoutOf calendarDay V1 options30 edgeExample)) ''Monday''))
       = [''E'', ''A'', ''L'']
   \<and> startMinutes (the (bucket (sorted_data (layoutOf calendarDay V1 options30 edgeExample)) ''Monday'') ! 0)
       < minutes (hd (the (generateTimeSlots V1 options30 (scheduleOf calendarDay V1 options30 edgeExample))))
   \<and> slotIndex (the (bucket (sorted_data (layoutOf calendarDay V1 options30 edgeExample)) ''Monday'') ! 0)
       = Some 0
   \<and> (''Monday'',
        EventCell (the (bucket (sorted_data (layoutOf calendarDay V1 options30 edgeExample)) ''Monday'') ! 0) 3)
       \<in> set (rows (layoutOf calendarDay V1 options30 edgeExample) ! 0)
   \<and> (''Monday'',
        EventCell (the (bucket (sorted_data (layoutOf calendarDay V2 options30 overlapExample)) ''Monday'') ! 2) 2)
       \<in> set (rows (layoutOf calendarDay V2 options30 overlapExample) ! 4)"
proof -
  let ?S = "scheduleOf calendarDay V1 options30 edgeExample"
  let ?T = "the (generateTimeSlots V1 options30 ?S)"
  let ?L = "layoutOf calendarDay V1 options30 edgeExample"
  let ?ES = "the (bucket (sorted_data ?L) ''Monday'')"
  let ?E = "?ES ! 0"
  have i: "0 < timeInterval options30" by (simp add: options30_def)
  have g: "generateTimeSlots V1 options30 ?S = Some ?T"
    using generateTimeSlots_V1_grid(1) [OF i, of ?S] by simp
  have r: "render V1 True options30 ?T ?S = Inr (Some ?L)" by code_simp
  have "bucket (sorted_data ?L) ''Monday'' \<noteq> None" by code_simp
  then have b: "bucket (sorted_data ?L) ''Monday'' = Some ?ES" by simp
  have nm: "map name ?ES = [''E'', ''A'', ''L'']" by code_simp
  then have "length ?ES = 3" by (metis length_map length_Cons list.size(3) numeral_3_eq_3)
  then have e: "?E \<in> set ?ES" by simp
  have early: "startMinutes ?E < minutes (hd ?T)" by code_simp
  have free: "(''Monday'', 0) \<notin> cellOccupied ?L" by code_simp
  have rs: "3 = getRowSpan V1 options30 (duration ?E)" by code_simp
  have len: "0 < length ?T" by code_simp
  note T1 = slotIndex_and_row [where opts = options30 and sched = ?S and slots = ?T and lay = ?L
      and day = "''Monday''" and es = ?ES and ev = ?E and t = 0, OF i, THEN conjunct1, rule_format]
  have pre: "generateTimeSlots V1 options30 ?S = Some ?T
          \<and> render V1 True options30 ?T ?S = Inr (Some ?L)
          \<and> bucket (sorted_data ?L) ''Monday'' = Some ?ES \<and> ?E \<in> set ?ES"
    using g r b e by blast
  have idx: "slotIndex ?E = Some (spec_slotIndex (timeInterval options30) ?T (startMinutes ?E))"
    using T1 [OF pre] by blast
  have s0: "slotIndex ?E = Some 0" using T1 [OF pre] early by blast
  have sp: "int 0 = spec_slotIndex (timeInterval options30) ?T (startMinutes ?E)"
    using idx s0 by simp
  have cell: "(''Monday'', EventCell ?E 3) \<in> set (rows ?L ! 0)"
    using T1 [OF pre] len sp free rs by blast
  let ?S2 = "scheduleOf calendarDay V2 options30 overlapExample"
  let ?T2 = "the (generateTimeSlots V2 options30 ?S2)"
  let ?L2 = "layoutOf calendarDay V2 options30 overlapExample"
  let ?ES2 = "the (bucket (sorted_data ?L2) ''Monday'')"
  let ?C = "?ES2 ! 2"
  have g2: "generateTimeSlots V2 options30 ?S2 = Some ?T2" by code_simp
  have r2: "render V2 True options30 ?T2 ?S2 = Inr (Some ?L2)" by code_simp
  have "bucket (sorted_data ?L2) ''Monday'' \<noteq> None" by code_simp
  then have b2: "bucket (sorted_data ?L2) ''Monday'' = Some ?ES2" by simp
  have e2: "?C \<in> set ?ES2" by code_simp
  have w2: "minutes (?T2 ! 4) \<le> startMinutes ?C \<and> startMinutes ?C < minutes (?T2 ! 4) + timeInterval options30"
    by code_simp
  have free2: "(''Monday'', 4) \<notin> cellOccupied ?L2" by code_simp
  have rs2: "2 = getRowSpan V2 options30 (duration ?C)" by code_simp
  have len2: "4 < length ?T2" by code_simp
  note T2 = slotIndex_and_row [where opts = options30 and sched = ?S2 and slots = ?T2 and lay = ?L2
      and day = "''Monday''" and es = ?ES2 and ev = ?C and t = 0, OF i, THEN conjunct2, rule_format]
  have pre2: "generateTimeSlots V2 options30 ?S2 = Some ?T2
          \<and> render V2 True options30 ?T2 ?S2 = Inr (Some ?L2)
          \<and> bucket (sorted_data ?L2) ''Monday'' = Some ?ES2 \<and> ?C \<in> set ?ES2"
    using g2 r2 b2 e2 by blast
  have cell2: "(''Monday'', EventCell ?C 2) \<in> set (rows ?L2 ! 4)"
    using T2 [OF pre2] len2 w2 free2 rs2 by blast
  from i g r nm early s0 cell cell2 show ?thesis by blast
qed

text \<open>
  Claim C3 as stated fails where it says that an event starting outside the window is put in
  an edge row rather than dropped. Version 1: L starts at 20:00, after the last window; its
  slot index is the last row, 19, which the span of A occupies, and L has no cell. Version 2:
  B starts at 10:00, where the grid of two rows ends; no row is given to it and it has no
  cell.
\<close>

theorem clamped_event_dropped_counterexample:
  "map name (the (bucket (sorted_data (layoutOf calendarDay V1 options30 edgeExample)) ''Monday''))
     = [''E'', ''A'', ''L'']
   \<and> length (the (generateTimeSlots V1 options30 (scheduleOf calendarDay V1 options30 edgeExample))) = 20
   \<and> minutes (last (the (generateTimeSlots V1 options30 (scheduleOf calendarDay V1 options30 edgeExample))))
        + timeInterval options30
       \<le> startMinutes (the (bucket (sorted_data (layoutOf calendarDay V1 options30 edgeExample)) ''Monday'') ! 2)
   \<and> slotIndex (the (bucket (sorted_data (layoutOf calendarDay V1 options30 edgeExample)) ''Monday'') ! 2)
       = Some 19
   \<and> (''Monday'', 19) \<in> cellOccupied (layoutOf calendarDay V1 options30 edgeExample)
   \<and> the (bucket (sorted_data (layoutOf calendarDay V1 options30 edgeExample)) ''Monday'') ! 2
       \<notin> set (renderedEvents (layoutOf calendarDay V1 options30 edgeExample))
   \<and> map name (the (bucket (sorted_data (layoutOf calendarDay V2 options30 zeroExample)) ''Monday''))
       = [''A'', ''B'']
   \<and> length (the (generateTimeSlots V2 options30 (scheduleOf calendarDay V2 options30 zeroExample))) = 2
   \<and> minutes (last (the (generateTimeSlots V2 options30 (scheduleOf calendarDay V2 options30 zeroExample))))
        + timeInterval options30
       \<le> startMinutes (the (bucket (sorted_data (layoutOf calendarDay V2 options30 zeroExample)) ''Monday'') ! 1)
   \<and> the (bucket (sorted_data (layoutOf calendarDay V2 options30 zeroExample)) ''Monday'') ! 1
       \<notin> set (renderedEvents (layoutOf calendarDay V2 options30 zeroExample))"
  by code_simp

end
